theory Spec2Isabelle
  imports Main "HOL-Library.Word" "HOL-Library.Monad_Syntax" "HOL-Library.Sublist"
begin

section \<open>Resumable upload for Google APIs: a model of \<open>resumableUploadForGoogleAPIs.js\<close>\<close>

text \<open>
  The module exports one function, \<open>resumableUpload(object)\<close>. It validates its argument,
  opens the byte source (a file stream or the body of a GET), opens an upload session with a
  POST, and then sends the source to the session URL in chunks, one PUT per chunk, retrying a
  chunk up to three times.

  The model is a state-passing embedding of the event loop. An \<open>async\<close> function runs until
  its next \<open>await\<close>; the model has one function for each such piece. The network is a sequence
  of responses: the \<open>n\<close>-th call of \<open>fetch\<close> (counted from 0) is answered by \<open>network env n\<close>,
  whatever the request. \<open>trace\<close> holds every request with its response, in the order of the
  calls; \<open>events\<close> holds, in the order of time, the calls of \<open>fetch\<close> (\<open>Sent\<close>) and the
  moments at which the code gets a response (\<open>Received\<close>).

  Two things depend on timing and are parameters of the environment. \<open>eof_buffered\<close> says
  that the end of the source is in the buffer of the stream when the last fragment is handed
  out; then the stream emits \<open>end\<close> on the next tick, paused or not. \<open>data_first\<close> says,
  when the upload of the \<open>data\<close> handler and the upload of the \<open>end\<close> handler both wait for
  a response, whose response comes first.

  A call of \<open>fetch\<close> is taken to yield a response: a rejected \<open>fetch\<close> (no connection,
  unparsable URL) and a failing read of the byte source are not modelled, so the \<open>error\<close>
  handler of line 179 never runs. The numbers \<open>dataSize\<close>, \<open>chunkSize\<close> and \<open>startByte\<close> are
  integers (a size in bytes; fractions are outside the model), strings are strings, and the
  console output is left out.
\<close>

subsection \<open>Buffers and number formatting\<close>

type_synonym byte = "8 word"
type_synonym buffer = "byte list"

text \<open>
  \<open>Buffer.prototype.slice(start, end)\<close>: both indices are clamped to the buffer, a negative
  index counts from the end, a missing \<open>end\<close> is the length.
\<close>

definition slice_index :: "int \<Rightarrow> nat \<Rightarrow> nat" where
  "slice_index i len = (if i < 0 then nat (max (int len + i) 0) else min (nat i) len)"

definition buffer_slice :: "'a list \<Rightarrow> int \<Rightarrow> int option \<Rightarrow> 'a list" where
  "buffer_slice buf start end_opt =
     (let len = length buf;
          b = slice_index start len;
          e = (case end_opt of None \<Rightarrow> len | Some i \<Rightarrow> slice_index i len)
      in take (e - b) (drop b buf))"

text \<open>
  A template literal \<open>`${n}`\<close> writes a safe integer (below \<open>2^53\<close> in absolute value) in
  decimal, with a minus sign when negative. From \<open>2^53\<close> on JavaScript writes the shortest
  digits that identify the floating-point number, padded with zeros, and from \<open>10^21\<close> on
  the exponent form (\<open>1e+21\<close>); what it writes there is left to the parameter \<open>big\<close>.
\<close>

fun digits :: "nat \<Rightarrow> string" where
  "digits n = (if n < 10 then [''0123456789'' ! n]
               else digits (n div 10) @ [''0123456789'' ! (n mod 10)])"

declare digits.simps [simp del]

definition number_toString :: "(int \<Rightarrow> string) \<Rightarrow> int \<Rightarrow> string" where
  "number_toString big i =
     (if 2 ^ 53 \<le> \<bar>i\<bar> then big i
      else if i < 0 then ''-'' @ digits (nat (- i))
      else digits (nat i))"

subsection \<open>Requests, responses and the environment\<close>

datatype body = Text_body string | Buffer_body buffer

record request =
  http_method :: string
  url :: "string option"
  headers :: "(string \<times> string) list"
  body :: "body option"

text \<open>
  A response: its status, its \<open>location\<close> header (\<open>headers.get("location")\<close>, \<open>null\<close> when
  absent), its body read as text (\<open>text()\<close>) and its body read as a stream of fragments.
\<close>

record response =
  status :: int
  header_location :: "string option"
  body_text :: string
  body_fragments :: "buffer list"

text \<open>\<open>Response.ok\<close> is true for the statuses 200 to 299.\<close>

definition ok :: "response \<Rightarrow> bool" where
  "ok res = (200 \<le> status res \<and> status res \<le> 299)"

text \<open>
  The environment: the responses of the network, the fragments that \<open>fs.createReadStream\<close>
  delivers for a path, \<open>JSON.parse\<close> (\<open>None\<close> when it throws a \<open>SyntaxError\<close>), what
  \<open>toString\<close> writes for a number of \<open>2^53\<close> or more, and the two timing parameters.
\<close>

record 'j env =
  network :: "nat \<Rightarrow> response"
  createReadStream :: "string \<Rightarrow> buffer list"
  JSON_parse :: "string \<Rightarrow> 'j option"
  big_toString :: "int \<Rightarrow> string"
  eof_buffered :: bool
  data_first :: "nat \<Rightarrow> bool"

subsection \<open>The state of one call\<close>

datatype 'j payload = Json 'j | Text string

text \<open>
  The promise returned by \<open>resumableUpload\<close>. \<open>Rejected st e\<close> is \<open>reject({status: st, error: e})\<close>.
\<close>

datatype 'j outcome = Pending | Resolved "'j payload" | Rejected int "'j payload"

datatype js_error = Error string | SyntaxError

datatype event = Sent request | Received request response

text \<open>
  \<open>uncaught\<close> holds an exception thrown inside the \<open>async\<close> executor: it rejects the promise
  of the executor, not the promise that \<open>resumableUpload\<close> returns.
\<close>

record 'j state =
  startByte :: int
  bufferData :: "buffer list"
  paused :: bool
  promise :: "'j outcome"
  uncaught :: "js_error option"
  trace :: "(request \<times> response) list"
  events :: "event list"

text \<open>
  \<open>fetch\<close> is the call; \<open>receive\<close> is the moment the \<open>await\<close> on its result (and on
  \<open>text()\<close>) returns.
\<close>

definition fetch :: "'j env \<Rightarrow> request \<Rightarrow> 'j state \<Rightarrow> response \<times> 'j state" where
  "fetch env req s =
     (let res = network env (length (trace s))
      in (res, s\<lparr>trace := trace s @ [(req, res)], events := events s @ [Sent req]\<rparr>))"

definition receive :: "request \<Rightarrow> response \<Rightarrow> 'j state \<Rightarrow> 'j state" where
  "receive req res s = s\<lparr>events := events s @ [Received req res]\<rparr>"

definition await_fetch :: "'j env \<Rightarrow> request \<Rightarrow> 'j state \<Rightarrow> response \<times> 'j state" where
  "await_fetch env req s = (case fetch env req s of (res, s1) \<Rightarrow> (res, receive req res s1))"

text \<open>A promise settles once: later calls of \<open>resolve\<close> and \<open>reject\<close> have no effect.\<close>

definition resolve :: "'j payload \<Rightarrow> 'j state \<Rightarrow> 'j state" where
  "resolve v s = (if promise s = Pending then s\<lparr>promise := Resolved v\<rparr> else s)"

definition reject :: "int \<Rightarrow> 'j payload \<Rightarrow> 'j state \<Rightarrow> 'j state" where
  "reject st e s = (if promise s = Pending then s\<lparr>promise := Rejected st e\<rparr> else s)"

subsection \<open>Sending one chunk\<close>

text \<open>
  The closure \<open>upload\<close> (lines 83 to 123, and again lines 135 to 174: the two copies differ
  in what they print only). It is an \<open>async\<close> function with one \<open>await\<close> that matters, the one
  on \<open>fetch\<close>. \<open>call_upload\<close> is the closure from its entry to that \<open>await\<close>: it builds the
  request from the \<open>startByte\<close> of that moment and calls \<open>fetch\<close>. An \<open>upload_call\<close> is the
  suspended call: its chunk, its \<open>upCount\<close>, the request it waits on and the response that
  will come. \<open>resume_upload\<close> is the closure from the \<open>await\<close> on: the three branches on the
  status and, for a retry, the recursive call, which runs to its own \<open>await\<close>. It returns the
  suspended call of the retry, or \<open>None\<close> when the closure has returned.
\<close>

definition put_request :: "'j env \<Rightarrow> string option \<Rightarrow> int \<Rightarrow> int \<Rightarrow> buffer \<Rightarrow> request" where
  "put_request env location dataSize start dataChunk =
     \<lparr>http_method = ''PUT'', url = location,
      headers = [(''Content-Range'',
        ''bytes '' @ number_toString (big_toString env) start @ ''-''
          @ number_toString (big_toString env) (start + int (length dataChunk) - 1)
          @ ''/'' @ number_toString (big_toString env) dataSize)],
      body = Some (Buffer_body dataChunk)\<rparr>"

record upload_call =
  up_chunk :: buffer
  up_count :: nat
  up_request :: request
  up_response :: response

definition call_upload ::
  "'j env \<Rightarrow> string option \<Rightarrow> int \<Rightarrow> buffer \<Rightarrow> nat \<Rightarrow> 'j state \<Rightarrow> upload_call \<times> 'j state"
where
  "call_upload env location dataSize dataChunk upCount s =
     (let req = put_request env location dataSize (startByte s) dataChunk
      in case fetch env req s of
           (res, s1) \<Rightarrow>
             (\<lparr>up_chunk = dataChunk, up_count = upCount, up_request = req, up_response = res\<rparr>, s1))"

definition resume_upload ::
  "'j env \<Rightarrow> string option \<Rightarrow> int \<Rightarrow> upload_call \<Rightarrow> 'j state \<Rightarrow> upload_call option \<times> 'j state"
where
  "resume_upload env location dataSize u s0 =
     (let res3 = up_response u;
          s = receive (up_request u) res3 s0
      in if ok res3 \<and> status res3 = 200 then
           (None, resolve (case JSON_parse env (body_text res3) of
                             Some j \<Rightarrow> Json j | None \<Rightarrow> Text (body_text res3)) s)
         else if status res3 = 308 then
           (None, s\<lparr>startByte := startByte s + int (length (up_chunk u)), paused := False\<rparr>)
         else if up_count u = 3 then
           (None, reject (status res3) (Text (body_text res3)) s)
         else
           (case call_upload env location dataSize (up_chunk u) (up_count u + 1) s of
              (u', s') \<Rightarrow> (Some u', s')))"

text \<open>
  The event loop while uploads wait for their responses: \<open>d\<close> is the suspended upload of the
  \<open>data\<close> handler, with the \<open>left\<close> of that handler, and \<open>e\<close> the suspended upload of the \<open>end\<close>
  handler. One step is the arrival of one response; when both wait, \<open>data_first env n\<close>
  chooses. When the upload of the \<open>data\<close> handler returns, the handler goes on to
  \<open>bufferData = [left]\<close> (line 126). The loop ends when no upload waits. The recursion stops
  on the test \<open>upCount == 3\<close> of the closures, so the function is partial.
\<close>

partial_function (option) await_uploads ::
  "'j env \<Rightarrow> string option \<Rightarrow> int \<Rightarrow> nat \<Rightarrow> (upload_call \<times> buffer) option \<Rightarrow>
   upload_call option \<Rightarrow> 'j state \<Rightarrow> 'j state option"
where
  "await_uploads env location dataSize n d e s =
     (case d of
        None \<Rightarrow>
          (case e of
             None \<Rightarrow> Some s
           | Some ue \<Rightarrow>
               (case resume_upload env location dataSize ue s of
                  (e', s') \<Rightarrow> await_uploads env location dataSize (n + 1) None e' s'))
      | Some (ud, left) \<Rightarrow>
          (case (if data_first env n then None else e) of
             None \<Rightarrow>
               (case resume_upload env location dataSize ud s of
                  (None, s') \<Rightarrow>
                    await_uploads env location dataSize (n + 1) None e (s'\<lparr>bufferData := [left]\<rparr>)
                | (Some ud', s') \<Rightarrow>
                    await_uploads env location dataSize (n + 1) (Some (ud', left)) e s')
           | Some ue \<Rightarrow>
               (case resume_upload env location dataSize ue s of
                  (e', s') \<Rightarrow> await_uploads env location dataSize (n + 1) d e' s')))"

declare await_uploads.simps [code]

subsection \<open>The handlers of the stream\<close>

text \<open>
  The \<open>data\<close> handler (lines 74 to 128) up to its \<open>await\<close>. It cuts at most one chunk from
  the buffer per fragment, pauses the stream and calls \<open>upload\<close>; it returns the suspended
  upload with \<open>left\<close>, or \<open>None\<close> when it sent nothing.
\<close>

definition on_data ::
  "'j env \<Rightarrow> string option \<Rightarrow> int \<Rightarrow> int \<Rightarrow> buffer \<Rightarrow> 'j state \<Rightarrow>
   (upload_call \<times> buffer) option \<times> 'j state"
where
  "on_data env location dataSize chunkSize chunk s =
     (let s1 = s\<lparr>bufferData := bufferData s @ [chunk]\<rparr>;
          temp = concat (bufferData s1)
      in if int (length temp) \<ge> chunkSize then
           (let dataChunk = buffer_slice temp 0 (Some chunkSize);
                left = buffer_slice temp chunkSize None;
                s2 = s1\<lparr>paused := True\<rparr>
            in case call_upload env location dataSize dataChunk 0 s2 of
                 (u, s3) \<Rightarrow> (Some (u, left), s3))
         else (None, s1))"

text \<open>
  The \<open>end\<close> handler (lines 129 to 178) up to its \<open>await\<close>: what the buffer holds is the last
  chunk.
\<close>

definition on_end ::
  "'j env \<Rightarrow> string option \<Rightarrow> int \<Rightarrow> 'j state \<Rightarrow> upload_call option \<times> 'j state"
where
  "on_end env location dataSize s =
     (let dataChunk = concat (bufferData s)
      in if length dataChunk > 0 then
           (case call_upload env location dataSize dataChunk 0 s of (u, s1) \<Rightarrow> (Some u, s1))
         else (None, s))"

text \<open>
  The stream in flowing mode emits one \<open>data\<close> event per fragment, and nothing while it is
  paused; only the 308 branch of \<open>upload\<close> resumes it, and the handler of a fragment has
  finished (the assignment \<open>bufferData = [left]\<close> included) before the next fragment, since
  \<open>resume()\<close> takes effect on a later tick.

  The \<open>end\<close> event comes in one of two ways. When the end of the source is already buffered
  as the last fragment is handed out (\<open>eof\<close>), \<open>read()\<close> schedules \<open>end\<close> for the next tick
  before it emits that fragment, and the scheduled emit does not look at the paused flag: the
  \<open>end\<close> handler runs as soon as the \<open>data\<close> handler of the last fragment has reached its
  \<open>await\<close>, and the two uploads wait together. Otherwise \<open>end\<close> is emitted once the stream
  flows with nothing left to read, that is after the \<open>data\<close> handler has finished, and never
  if the stream stays paused.
\<close>

fun stream_events ::
  "'j env \<Rightarrow> bool \<Rightarrow> string option \<Rightarrow> int \<Rightarrow> int \<Rightarrow> buffer list \<Rightarrow> 'j state \<Rightarrow> 'j state option"
where
  "stream_events env eof location dataSize chunkSize [] s =
     (if paused s then Some s
      else case on_end env location dataSize s of
             (e, s1) \<Rightarrow> await_uploads env location dataSize 0 None e s1)"
| "stream_events env eof location dataSize chunkSize (chunk # rest) s =
     (if paused s then Some s
      else case on_data env location dataSize chunkSize chunk s of
             (d, s1) \<Rightarrow>
               if rest = [] \<and> eof then
                 (case on_end env location dataSize s1 of
                    (e, s2) \<Rightarrow> await_uploads env location dataSize 0 d e s2)
               else do {
                 s2 \<leftarrow> await_uploads env location dataSize 0 d None s1;
                 stream_events env eof location dataSize chunkSize rest s2
               })"

subsection \<open>The exported function\<close>

text \<open>
  The argument object: a property that is \<open>undefined\<close> is \<open>None\<close> and takes the default of
  the destructuring pattern. \<open>metadata\<close> is held as its JSON text, the value of
  \<open>JSON.stringify(metadata)\<close>.
\<close>

record upload_object =
  filePath :: "string option"
  fileUrl :: "string option"
  resumableUrl :: "string option"
  dataSize :: "int option"
  accessToken :: "string option"
  metadata :: "string option"
  chunkSize :: "int option"

definition or_default :: "'a \<Rightarrow> 'a option \<Rightarrow> 'a" where
  "or_default d v = (case v of None \<Rightarrow> d | Some x \<Rightarrow> x)"

definition initial :: "'j state" where
  "initial = \<lparr>startByte = 0, bufferData = [], paused = False, promise = Pending,
              uncaught = None, trace = [], events = []\<rparr>"

definition session_headers :: "string option \<Rightarrow> (string \<times> string) list" where
  "session_headers token =
     (case token of
        None \<Rightarrow> [(''Content-Type'', ''application/json'')]
      | Some t \<Rightarrow>
          if t = '''' then [(''Content-Type'', ''application/json'')]
          else [(''Content-Type'', ''application/json''), (''authorization'', ''Bearer '' @ t)])"

definition resumableUpload :: "'j env \<Rightarrow> upload_object \<Rightarrow> 'j state option" where
  "resumableUpload env object =
     (let filePath' = or_default '''' (filePath object);
          fileUrl' = or_default '''' (fileUrl object);
          resumableUrl' = or_default '''' (resumableUrl object);
          dataSize' = or_default 0 (dataSize object);
          metadata' = or_default ''{}'' (metadata object);
          chunkSize' = or_default 16777216 (chunkSize object)
      in if resumableUrl' = '''' \<or> dataSize' = 0 then
           Some (initial\<lparr>uncaught := Some (Error ''Please set resumableUrl and dataSize'')\<rparr>)
         else
           (case (if filePath' \<noteq> '''' \<and> fileUrl' = '''' then
                    Inr (createReadStream env filePath', initial)
                  else if filePath' = '''' \<and> fileUrl' \<noteq> '''' then
                    (case await_fetch env \<lparr>http_method = ''GET'', url = Some fileUrl',
                                            headers = [], body = None\<rparr> initial of
                       (res1, s) \<Rightarrow> Inr (body_fragments res1, s))
                  else Inl (Error ''Please set filePath or fileUrl''))
            of
              Inl err \<Rightarrow> Some (initial\<lparr>uncaught := Some err\<rparr>)
            | Inr (mainData, s1) \<Rightarrow>
                (case await_fetch env \<lparr>http_method = ''POST'', url = Some resumableUrl',
                                        headers = session_headers (accessToken object),
                                        body = Some (Text_body metadata')\<rparr> s1 of
                   (res2, s2) \<Rightarrow>
                     if ok res2 then
                       stream_events env (eof_buffered env) (header_location res2) dataSize'
                         chunkSize' mainData s2
                     else
                       (case JSON_parse env (body_text res2) of
                          None \<Rightarrow> Some (s2\<lparr>uncaught := Some SyntaxError\<rparr>)
                        | Some j \<Rightarrow> Some (reject (status res2) (Json j) s2)))))"

subsection \<open>Reading the trace and the events\<close>

text \<open>
  A response is \<open>failing\<close> when \<open>upload\<close> takes neither its 200 branch nor its 308 branch.
  \<open>chunk_of\<close> is the buffer a request carries, \<open>accepted\<close> the chunks that were answered 200
  or 308, in the order of the requests, and \<open>confirmed\<close> the number of bytes whose 308 the
  code has received. Two requests overlap when the second is sent before the response to
  the first has come: \<open>overlapping\<close> finds two \<open>Sent\<close> events in a row.
\<close>

definition failing :: "response \<Rightarrow> bool" where
  "failing res = (status res \<noteq> 200 \<and> status res \<noteq> 308)"

definition chunk_of :: "request \<Rightarrow> buffer" where
  "chunk_of req = (case body req of Some (Buffer_body b) \<Rightarrow> b | _ \<Rightarrow> [])"

definition accepted :: "(request \<times> response) list \<Rightarrow> buffer list" where
  "accepted tr = map (chunk_of \<circ> fst) (filter (\<lambda>x. \<not> failing (snd x)) tr)"

fun confirmed :: "event list \<Rightarrow> int" where
  "confirmed [] = 0"
| "confirmed (Received req res # es) =
     (if status res = 308 then int (length (chunk_of req)) else 0) + confirmed es"
| "confirmed (Sent req # es) = confirmed es"

fun overlapping :: "event list \<Rightarrow> bool" where
  "overlapping (Sent a # Sent b # es) = True"
| "overlapping (ev # es) = overlapping es"
| "overlapping [] = False"

text \<open>
  A suspended upload is \<open>closure_ok\<close> when its \<open>upCount\<close> is at most 3 and the request it
  waits on carries its chunk: every upload that the handlers start is.
\<close>

definition closure_ok :: "upload_call \<Rightarrow> bool" where
  "closure_ok u \<longleftrightarrow> up_count u \<le> 3 \<and> chunk_of (up_request u) = up_chunk u"

text \<open>
  \<open>received\<close> lists the responses that have come, with their requests. \<open>ranged\<close> says of a
  log of events that every request sent is the PUT that \<open>put_request\<close> builds at the offset
  \<open>b0\<close> plus the bytes confirmed before the request was sent.
\<close>

fun received :: "event list \<Rightarrow> (request \<times> response) list" where
  "received [] = []"
| "received (Received req res # es) = (req, res) # received es"
| "received (Sent req # es) = received es"

definition ranged :: "'j env \<Rightarrow> string option \<Rightarrow> int \<Rightarrow> int \<Rightarrow> event list \<Rightarrow> bool" where
  "ranged env loc D b0 lg \<longleftrightarrow>
     (\<forall>i<length lg. \<forall>req. lg ! i = Sent req \<longrightarrow>
        req = put_request env loc D (b0 + confirmed (take i lg)) (chunk_of req))"

text \<open>
  One event of the stream when no other upload waits: the handler, then its upload to the
  end. \<open>settle\<close> is what \<open>upload\<close> does with the response that ends its recursion,
  \<open>attempt_log\<close> the log of the \<open>m\<close> attempts that start with call number \<open>n\<close>, and
  \<open>exchanges\<close> the events of requests that are answered one after the other.
  \<open>round env loc D c j s s'\<close> says that \<open>s'\<close> is \<open>s\<close> after sending the chunk \<open>c\<close> with \<open>j\<close>
  failing attempts and a last one.
\<close>

definition data_event ::
  "'j env \<Rightarrow> string option \<Rightarrow> int \<Rightarrow> int \<Rightarrow> buffer \<Rightarrow> 'j state \<Rightarrow> 'j state option"
where
  "data_event env loc D C chunk s =
     (case on_data env loc D C chunk s of
        (d, s1) \<Rightarrow> await_uploads env loc D 0 d None s1)"

definition end_event :: "'j env \<Rightarrow> string option \<Rightarrow> int \<Rightarrow> 'j state \<Rightarrow> 'j state option" where
  "end_event env loc D s =
     (case on_end env loc D s of
        (e, s1) \<Rightarrow> await_uploads env loc D 0 None e s1)"

definition settle :: "'j env \<Rightarrow> buffer \<Rightarrow> response \<Rightarrow> 'j state \<Rightarrow> 'j state" where
  "settle env dataChunk res s =
     (if status res = 200 then
        resolve (case JSON_parse env (body_text res) of Some j \<Rightarrow> Json j | None \<Rightarrow> Text (body_text res)) s
      else if status res = 308 then
        s\<lparr>startByte := startByte s + int (length dataChunk), paused := False\<rparr>
      else reject (status res) (Text (body_text res)) s)"

definition attempt_log :: "'j env \<Rightarrow> request \<Rightarrow> nat \<Rightarrow> nat \<Rightarrow> (request \<times> response) list" where
  "attempt_log env req n m = map (\<lambda>i. (req, network env (n + i))) [0..<m]"

fun exchanges :: "(request \<times> response) list \<Rightarrow> event list" where
  "exchanges [] = []"
| "exchanges ((req, res) # xs) = Sent req # Received req res # exchanges xs"

definition round :: "'j env \<Rightarrow> string option \<Rightarrow> int \<Rightarrow> buffer \<Rightarrow> nat \<Rightarrow> 'j state \<Rightarrow> 'j state \<Rightarrow> bool" where
  "round env loc D c j s s' \<longleftrightarrow>
     j \<le> 3 \<and>
     (\<forall>i<j. failing (network env (length (trace s) + i))) \<and>
     (failing (network env (length (trace s) + j)) \<longrightarrow> j = 3) \<and>
     s' = settle env c (network env (length (trace s) + j))
            (s\<lparr>trace := trace s @ attempt_log env (put_request env loc D (startByte s) c) (length (trace s)) j
                     @ [(put_request env loc D (startByte s) c, network env (length (trace s) + j))],
               events := events s @ exchanges
                   (attempt_log env (put_request env loc D (startByte s) c) (length (trace s)) j
                     @ [(put_request env loc D (startByte s) c, network env (length (trace s) + j))])\<rparr>)"

text \<open>The value \<open>upload\<close> resolves with on a 200.\<close>

definition parsed :: "'j env \<Rightarrow> response \<Rightarrow> 'j payload" where
  "parsed env res = (case JSON_parse env (body_text res) of Some j \<Rightarrow> Json j | None \<Rightarrow> Text (body_text res))"

text \<open>
  Reading a numeral back: \<open>decimal_value\<close> is the number that a string of decimal digits
  denotes.
\<close>

definition digit_value :: "char \<Rightarrow> nat" where
  "digit_value c = of_char c - 48"

definition decimal_value :: "string \<Rightarrow> nat" where
  "decimal_value ds = foldl (\<lambda>n c. 10 * n + digit_value c) 0 ds"

subsection \<open>Sample environments\<close>

text \<open>
  A network that replays a list of responses and answers 308 afterwards, a \<open>JSON.parse\<close>
  that accepts the texts starting with a brace, and a file of three fragments. In
  \<open>sample_env\<close> the end of the source comes after the last fragment, and of two responses
  the one for the \<open>data\<close> handler comes first.
\<close>

definition reply :: "int \<Rightarrow> string \<Rightarrow> response" where
  "reply st txt = \<lparr>status = st, header_location = Some ''https://session'', body_text = txt,
                   body_fragments = [[1, 2, 3], [4, 5]]\<rparr>"

definition replay :: "response list \<Rightarrow> nat \<Rightarrow> response" where
  "replay rs n = (if n < length rs then rs ! n else reply 308 [])"

definition parse_braces :: "string \<Rightarrow> string option" where
  "parse_braces t = (case t of CHR ''{'' # _ \<Rightarrow> Some t | _ \<Rightarrow> None)"

definition always :: "bool \<Rightarrow> nat \<Rightarrow> bool" where
  "always b n = b"

definition sample_env :: "response list \<Rightarrow> string env" where
  "sample_env rs = \<lparr>network = replay rs,
                     createReadStream = (\<lambda>p. [[1, 2, 3], [4, 5, 6, 7], [8]]),
                     JSON_parse = parse_braces,
                     big_toString = (\<lambda>i. ''1e+21''),
                     eof_buffered = False,
                     data_first = always True\<rparr>"

text \<open>An argument object with a file source, a size of 8 bytes and chunks of 4 bytes.\<close>

definition sample_object :: upload_object where
  "sample_object = \<lparr>filePath = Some ''f'', fileUrl = None, resumableUrl = Some ''r'',
                     dataSize = Some 8, accessToken = Some ''tok'', metadata = None,
                     chunkSize = Some 4\<rparr>"

text \<open>
  A file small enough for the stream to read it in one fragment, with the end of the file in
  the buffer of the stream when that fragment is handed out.
\<close>

definition small_file_env :: "buffer \<Rightarrow> response list \<Rightarrow> string env" where
  "small_file_env file rs = (sample_env rs)\<lparr>createReadStream := (\<lambda>p. [file]), eof_buffered := True\<rparr>"

section \<open>Properties\<close>

subsection \<open>The pieces of \<open>upload\<close>\<close>

lemma chunk_of_put_request [simp]: "chunk_of (put_request env loc D start c) = c"
  by (simp add: chunk_of_def put_request_def)

lemma call_upload_eq:
  "call_upload env loc D c k s =
     (\<lparr>up_chunk = c, up_count = k, up_request = put_request env loc D (startByte s) c,
       up_response = network env (length (trace s))\<rparr>,
      s\<lparr>trace := trace s @ [(put_request env loc D (startByte s) c, network env (length (trace s)))],
        events := events s @ [Sent (put_request env loc D (startByte s) c)]\<rparr>)"
  by (simp add: call_upload_def fetch_def Let_def)

lemma closure_ok_call_upload: "k \<le> 3 \<Longrightarrow> closure_ok (fst (call_upload env loc D c k s))"
  by (simp add: call_upload_eq closure_ok_def)

lemma resume_upload_cases:
  obtains (complete) "status (up_response u) = 200"
      "resume_upload env loc D u s =
         (None, resolve (case JSON_parse env (body_text (up_response u)) of
                           Some j \<Rightarrow> Json j | None \<Rightarrow> Text (body_text (up_response u)))
                  (receive (up_request u) (up_response u) s))"
  | (continue) "status (up_response u) = 308"
      "resume_upload env loc D u s =
         (None, (receive (up_request u) (up_response u) s)
                  \<lparr>startByte := startByte s + int (length (up_chunk u)), paused := False\<rparr>)"
  | (failed) "failing (up_response u)" "up_count u = 3"
      "resume_upload env loc D u s =
         (None, reject (status (up_response u)) (Text (body_text (up_response u)))
                  (receive (up_request u) (up_response u) s))"
  | (retry) "failing (up_response u)" "up_count u \<noteq> 3"
      "resume_upload env loc D u s =
         (case call_upload env loc D (up_chunk u) (up_count u + 1)
                 (receive (up_request u) (up_response u) s) of
            (u', s') \<Rightarrow> (Some u', s'))"
proof -
  consider "status (up_response u) = 200" | "status (up_response u) = 308"
    | "failing (up_response u)" "up_count u = 3" | "failing (up_response u)" "up_count u \<noteq> 3"
    by (auto simp: failing_def)
  then show thesis
  proof cases
    case 1 then show ?thesis by (intro complete) (simp_all add: resume_upload_def Let_def ok_def)
  next
    case 2 then show ?thesis by (intro continue) (simp_all add: resume_upload_def Let_def ok_def receive_def)
  next
    case 3 then show ?thesis by (intro failed) (simp_all add: resume_upload_def Let_def failing_def)
  next
    case 4 then show ?thesis by (intro retry) (simp_all add: resume_upload_def Let_def failing_def)
  qed
qed

lemma resume_upload_closure:
  assumes "closure_ok u" and "resume_upload env loc D u s = (Some u', s')"
  shows "closure_ok u' \<and> up_count u' = up_count u + 1 \<and> up_chunk u' = up_chunk u"
proof (cases rule: resume_upload_cases[of u env loc D s])
  case retry
  then show ?thesis using assms by (auto simp: call_upload_eq closure_ok_def)
qed (use assms in simp_all)

text \<open>The weight of the uploads that wait: the attempts they can still make.\<close>

lemma await_uploads_invariant_chunks:
  assumes P: "P s"
    and d: "\<forall>u left. d = Some (u, left) \<longrightarrow> closure_ok u \<and> Q (up_chunk u)"
    and e: "\<forall>u. e = Some u \<longrightarrow> closure_ok u \<and> Q (up_chunk u)"
    and step: "\<And>u t. P t \<Longrightarrow> closure_ok u \<Longrightarrow> Q (up_chunk u) \<Longrightarrow>
                 P (snd (resume_upload env loc D u t))"
    and buf: "\<And>t b. P t \<Longrightarrow> P (t\<lparr>bufferData := b\<rparr>)"
  shows "\<exists>s'. await_uploads env loc D n d e s = Some s' \<and> P s'"
  using P d e
proof (induction "(case d of None \<Rightarrow> 0 | Some (u, left) \<Rightarrow> 4 - up_count u) +
                  (case e of None \<Rightarrow> 0 | Some u \<Rightarrow> 4 - up_count u)"
       arbitrary: n d e s rule: less_induct)
  case less
  note IH = less.hyps and Ps = less.prems(1) and dok = less.prems(2) and eok = less.prems(3)
  have end_step: "\<exists>s'. (case resume_upload env loc D ue s of
                  (e', s') \<Rightarrow> await_uploads env loc D (n + 1) d e' s') = Some s' \<and> P s'"
    if ue: "e = Some ue" for ue
  proof -
    have ok: "closure_ok ue" and q: "Q (up_chunk ue)" using eok ue by simp_all
    obtain e' t where r: "resume_upload env loc D ue s = (e', t)" by (cases "resume_upload env loc D ue s")
    have Pt: "P t" using step[OF Ps ok q] r by simp
    have e'ok: "\<forall>u'. e' = Some u' \<longrightarrow> closure_ok u' \<and> Q (up_chunk u')"
      using resume_upload_closure[OF ok] r q by fastforce
    have m: "(case d of None \<Rightarrow> 0 | Some (u, left) \<Rightarrow> 4 - up_count u) +
             (case e' of None \<Rightarrow> 0 | Some u \<Rightarrow> 4 - up_count u)
           < (case d of None \<Rightarrow> 0 | Some (u, left) \<Rightarrow> 4 - up_count u) +
             (case e of None \<Rightarrow> 0 | Some u \<Rightarrow> 4 - up_count u)"
    proof (cases e')
      case None
      then show ?thesis using ok ue by (simp add: closure_ok_def; linarith)
    next
      case (Some u')
      then show ?thesis using resume_upload_closure[OF ok, of env loc D s u' t] r ok ue
        by (simp add: closure_ok_def; linarith)
    qed
    from IH[OF m Pt dok e'ok] show ?thesis using r by simp
  qed
  have data_step: "\<exists>s'. (case resume_upload env loc D ud s of
                  (None, s') \<Rightarrow>
                    await_uploads env loc D (n + 1) None e (s'\<lparr>bufferData := [left]\<rparr>)
                | (Some ud', s') \<Rightarrow>
                    await_uploads env loc D (n + 1) (Some (ud', left)) e s') = Some s' \<and> P s'"
    if ud: "d = Some (ud, left)" for ud left
  proof -
    have ok: "closure_ok ud" and q: "Q (up_chunk ud)" using dok ud by simp_all
    obtain d' t where r: "resume_upload env loc D ud s = (d', t)" by (cases "resume_upload env loc D ud s")
    have Pt: "P t" using step[OF Ps ok q] r by simp
    show ?thesis
    proof (cases d')
      case None
      have m: "(case None :: (upload_call \<times> buffer) option of None \<Rightarrow> 0 | Some (u, left) \<Rightarrow> 4 - up_count u) +
             (case e of None \<Rightarrow> 0 | Some u \<Rightarrow> 4 - up_count u)
           < (case d of None \<Rightarrow> 0 | Some (u, left) \<Rightarrow> 4 - up_count u) +
             (case e of None \<Rightarrow> 0 | Some u \<Rightarrow> 4 - up_count u)"
        using ok ud by (simp add: closure_ok_def; linarith)
      from IH[OF m buf[OF Pt, of "[left]"] _ eok] show ?thesis using r None by simp
    next
      case (Some u')
      have u': "closure_ok u'" "up_count u' = up_count ud + 1" "up_chunk u' = up_chunk ud"
        using resume_upload_closure[OF ok] r Some by blast+
      have m: "(case Some (u', left) of None \<Rightarrow> 0 | Some (u, left) \<Rightarrow> 4 - up_count u) +
             (case e of None \<Rightarrow> 0 | Some u \<Rightarrow> 4 - up_count u)
           < (case d of None \<Rightarrow> 0 | Some (u, left) \<Rightarrow> 4 - up_count u) +
             (case e of None \<Rightarrow> 0 | Some u \<Rightarrow> 4 - up_count u)"
        using ok ud u' by (simp add: closure_ok_def; linarith)
      have "\<forall>u l. Some (u', left) = Some (u, l) \<longrightarrow> closure_ok u \<and> Q (up_chunk u)"
        using u'(1,3) q by simp
      from IH[OF m Pt this eok, of "n + 1"] show ?thesis using r Some by simp
    qed
  qed
  show ?case
  proof (cases d)
    case None
    show ?thesis
    proof (cases e)
      case None
      with \<open>d = None\<close> Ps show ?thesis by (subst await_uploads.simps) simp
    next
      case (Some ue)
      from end_step[OF Some] show ?thesis
        using \<open>d = None\<close> Some by (subst await_uploads.simps) simp
    qed
  next
    case (Some p)
    obtain ud left where p: "p = (ud, left)" by (cases p)
    show ?thesis
    proof (cases "if data_first env n then None else e")
      case None
      from data_step[OF Some[unfolded p]] show ?thesis
        using Some p None by (subst await_uploads.simps) simp
    next
      case (Some ue)
      then have e: "e = Some ue" by (simp split: if_splits)
      from end_step[OF e] show ?thesis
        using \<open>d = Some p\<close> p Some by (subst await_uploads.simps) simp
    qed
  qed
qed


lemma await_uploads_invariant:
  assumes "P s"
    and "\<forall>u left. d = Some (u, left) \<longrightarrow> closure_ok u"
    and "\<forall>u. e = Some u \<longrightarrow> closure_ok u"
    and "\<And>u t. P t \<Longrightarrow> closure_ok u \<Longrightarrow> P (snd (resume_upload env loc D u t))"
    and "\<And>t b. P t \<Longrightarrow> P (t\<lparr>bufferData := b\<rparr>)"
  shows "\<exists>s'. await_uploads env loc D n d e s = Some s' \<and> P s'"
  by (rule await_uploads_invariant_chunks[where Q = "\<lambda>c. True"]) (use assms in simp_all)

lemma on_data_eq:
  "on_data env loc D C f s =
     (if C \<le> int (length (concat (bufferData s) @ f)) then
        (case call_upload env loc D (buffer_slice (concat (bufferData s) @ f) 0 (Some C)) 0
                (s\<lparr>bufferData := bufferData s @ [f], paused := True\<rparr>) of
           (u, s3) \<Rightarrow> (Some (u, buffer_slice (concat (bufferData s) @ f) C None), s3))
      else (None, s\<lparr>bufferData := bufferData s @ [f]\<rparr>))"
  by (simp add: on_data_def Let_def)

lemma on_end_eq:
  "on_end env loc D s =
     (if concat (bufferData s) \<noteq> [] then
        (case call_upload env loc D (concat (bufferData s)) 0 s of (u, s1) \<Rightarrow> (Some u, s1))
      else (None, s))"
  by (simp add: on_end_def Let_def)

lemma on_data_run_chunks:
  assumes "P s"
    and call: "\<And>c t. P t \<Longrightarrow> Q c \<Longrightarrow> P (snd (call_upload env loc D c 0 t))"
    and buf: "\<And>t b. P t \<Longrightarrow> P (t\<lparr>bufferData := b\<rparr>)"
    and pause: "\<And>t. P t \<Longrightarrow> P (t\<lparr>paused := True\<rparr>)"
    and qd: "\<And>temp. C \<le> int (length temp) \<Longrightarrow> Q (buffer_slice temp 0 (Some C))"
  shows "P (snd (on_data env loc D C f s))"
    and "\<forall>u left. fst (on_data env loc D C f s) = Some (u, left) \<longrightarrow>
           closure_ok u \<and> Q (up_chunk u)"
proof -
  have 1: "P (s\<lparr>bufferData := bufferData s @ [f]\<rparr>)" by (rule buf[OF assms(1)])
  from pause[OF this]
  have 2: "P (s\<lparr>bufferData := bufferData s @ [f], paused := True\<rparr>)" by simp
  have q: "Q (buffer_slice (concat (bufferData s) @ f) 0 (Some C))"
    if "C \<le> int (length (concat (bufferData s) @ f))"
    by (rule qd[OF that])
  have 3: "P (snd (call_upload env loc D (buffer_slice (concat (bufferData s) @ f) 0 (Some C)) 0
       (s\<lparr>bufferData := bufferData s @ [f], paused := True\<rparr>)))"
    if "C \<le> int (length (concat (bufferData s) @ f))"
    by (rule call[OF 2 q[OF that]])
  show "P (snd (on_data env loc D C f s))"
    using 1 3 by (simp add: on_data_eq call_upload_eq)
  show "\<forall>u left. fst (on_data env loc D C f s) = Some (u, left) \<longrightarrow>
           closure_ok u \<and> Q (up_chunk u)"
    using q by (simp add: on_data_eq call_upload_eq closure_ok_def)
qed

lemma on_end_run_chunks:
  assumes "P s"
    and call: "\<And>c t. P t \<Longrightarrow> Q c \<Longrightarrow> P (snd (call_upload env loc D c 0 t))"
    and qe: "\<And>c. c \<noteq> [] \<Longrightarrow> Q c"
  shows "P (snd (on_end env loc D s))"
    and "\<forall>u. fst (on_end env loc D s) = Some u \<longrightarrow> closure_ok u \<and> Q (up_chunk u)"
proof -
  have q: "Q (concat (bufferData s))" if "concat (bufferData s) \<noteq> []"
    by (rule qe[OF that])
  have "P (snd (call_upload env loc D (concat (bufferData s)) 0 s))"
    if "concat (bufferData s) \<noteq> []"
    by (rule call[OF assms(1) q[OF that]])
  then show "P (snd (on_end env loc D s))"
    using assms(1) by (simp add: on_end_eq call_upload_eq)
  show "\<forall>u. fst (on_end env loc D s) = Some u \<longrightarrow> closure_ok u \<and> Q (up_chunk u)"
    using q by (simp add: on_end_eq call_upload_eq closure_ok_def)
qed

lemma on_data_run:
  assumes "P s"
    and "\<And>c t. P t \<Longrightarrow> P (snd (call_upload env loc D c 0 t))"
    and "\<And>t b. P t \<Longrightarrow> P (t\<lparr>bufferData := b\<rparr>)"
    and "\<And>t. P t \<Longrightarrow> P (t\<lparr>paused := True\<rparr>)"
  shows "P (snd (on_data env loc D C f s))"
    and "\<forall>u left. fst (on_data env loc D C f s) = Some (u, left) \<longrightarrow> closure_ok u"
  using on_data_run_chunks[where Q = "\<lambda>c. True" and P = P, OF assms(1), of env loc D C f] assms(2-4)
  by simp_all

lemma on_end_run:
  assumes "P s"
    and "\<And>c t. P t \<Longrightarrow> P (snd (call_upload env loc D c 0 t))"
  shows "P (snd (on_end env loc D s))"
    and "\<forall>u. fst (on_end env loc D s) = Some u \<longrightarrow> closure_ok u"
  using on_end_run_chunks[where Q = "\<lambda>c. True" and P = P, OF assms(1), of env loc D] assms(2)
  by simp_all

lemma stream_events_run_chunks:
  assumes P: "P s"
    and call: "\<And>c t. P t \<Longrightarrow> Q c \<Longrightarrow> P (snd (call_upload env loc D c 0 t))"
    and step: "\<And>u t. P t \<Longrightarrow> closure_ok u \<Longrightarrow> Q (up_chunk u) \<Longrightarrow>
                 P (snd (resume_upload env loc D u t))"
    and buf: "\<And>t b. P t \<Longrightarrow> P (t\<lparr>bufferData := b\<rparr>)"
    and pause: "\<And>t. P t \<Longrightarrow> P (t\<lparr>paused := True\<rparr>)"
    and qd: "\<And>temp. C \<le> int (length temp) \<Longrightarrow> Q (buffer_slice temp 0 (Some C))"
    and qe: "\<And>c. c \<noteq> [] \<Longrightarrow> Q c"
  shows "\<exists>s'. stream_events env eof loc D C frags s = Some s' \<and> P s'"
  using P
proof (induction frags arbitrary: s)
  case Nil
  obtain e s1 where e: "on_end env loc D s = (e, s1)" by (cases "on_end env loc D s")
  have "P s1" "\<forall>u. e = Some u \<longrightarrow> closure_ok u \<and> Q (up_chunk u)"
    using on_end_run_chunks[where P = P and Q = Q and s = s, OF Nil call qe] e by simp_all
  from await_uploads_invariant_chunks[where P = P and Q = Q and s = s1 and d = None and e = e and n = 0,
      OF this(1) _ this(2) step buf]
  show ?case using Nil e by (cases "paused s") auto
next
  case (Cons f fs)
  obtain d s1 where d: "on_data env loc D C f s = (d, s1)" by (cases "on_data env loc D C f s")
  have s1: "P s1" "\<forall>u left. d = Some (u, left) \<longrightarrow> closure_ok u \<and> Q (up_chunk u)"
    using on_data_run_chunks[where P = P and Q = Q and s = s and f = f, OF Cons.prems call buf pause qd] d
      by simp_all
  show ?case
  proof (cases "paused s")
    case True
    then show ?thesis using Cons.prems by simp
  next
    case False
    show ?thesis
    proof (cases "fs = [] \<and> eof")
      case True
      obtain e s2 where e: "on_end env loc D s1 = (e, s2)" by (cases "on_end env loc D s1")
      have s2: "P s2" "\<forall>u. e = Some u \<longrightarrow> closure_ok u \<and> Q (up_chunk u)"
        using on_end_run_chunks[where P = P and Q = Q and s = s1, OF s1(1) call qe] e by simp_all
      from await_uploads_invariant_chunks[where P = P and Q = Q and s = s2 and d = d and e = e and n = 0,
          OF s2(1) s1(2) s2(2) step buf]
      show ?thesis using False True d e by simp
    next
      case nr: False
      from await_uploads_invariant_chunks[where P = P and Q = Q and s = s1 and d = d and e = None and n = 0,
          OF s1(1) s1(2) _ step buf]
      obtain s2 where s2: "await_uploads env loc D 0 d None s1 = Some s2" "P s2" by auto
      from Cons.IH[OF s2(2)] show ?thesis using False nr d s2(1) by auto
    qed
  qed
qed

lemma stream_events_run:
  assumes "P s"
    and "\<And>c t. P t \<Longrightarrow> P (snd (call_upload env loc D c 0 t))"
    and "\<And>u t. P t \<Longrightarrow> closure_ok u \<Longrightarrow> P (snd (resume_upload env loc D u t))"
    and "\<And>t b. P t \<Longrightarrow> P (t\<lparr>bufferData := b\<rparr>)"
    and "\<And>t. P t \<Longrightarrow> P (t\<lparr>paused := True\<rparr>)"
  shows "\<exists>s'. stream_events env eof loc D C frags s = Some s' \<and> P s'"
  by (rule stream_events_run_chunks[where Q = "\<lambda>c. True"]) (use assms in simp_all)

lemma confirmed_append [simp]: "confirmed (a @ b) = confirmed a + confirmed b"
  by (induction a rule: confirmed.induct) simp_all

lemma received_append [simp]: "received (a @ b) = received a @ received b"
  by (induction a rule: received.induct) simp_all

lemma confirmed_nonneg: "0 \<le> confirmed lg"
  by (induction lg rule: confirmed.induct) simp_all

lemma ranged_Nil: "ranged env loc D b0 []"
  by (simp add: ranged_def)

lemma ranged_Received: "ranged env loc D b0 lg \<Longrightarrow> ranged env loc D b0 (lg @ [Received req res])"
  by (auto simp: ranged_def nth_append less_Suc_eq)

lemma ranged_Sent:
  "ranged env loc D b0 lg \<Longrightarrow> ranged env loc D b0 (lg @ [Sent (put_request env loc D (b0 + confirmed lg) c)])"
  by (auto simp: ranged_def nth_append less_Suc_eq)


lemma received_Sent [simp]: "received (lg @ [Sent req]) = received lg"
  by simp

lemma stream_events_log:
  "\<exists>s'. stream_events env eof loc D C frags s = Some s' \<and>
     (\<exists>lg ext. events s' = events s @ lg \<and> trace s' = trace s @ ext \<and>
        startByte s' = startByte s + confirmed lg \<and>
        ranged env loc D (startByte s) lg \<and>
        ((\<forall>x\<in>set (received lg). status (snd x) = 308) \<longrightarrow> promise s' = promise s))"
proof -
  define P where "P = (\<lambda>t::'a state. \<exists>lg ext. events t = events s @ lg \<and> trace t = trace s @ ext \<and>
        startByte t = startByte s + confirmed lg \<and>
        ranged env loc D (startByte s) lg \<and>
        ((\<forall>x\<in>set (received lg). status (snd x) = 308) \<longrightarrow> promise t = promise s))"
  have init: "P s"
    unfolding P_def by (intro exI[of _ "[]"]) (simp add: ranged_Nil)
  have call: "P (snd (call_upload env loc D c k t))" if "P t" for c k t
  proof -
    from that obtain lg ext where t: "events t = events s @ lg" "trace t = trace s @ ext"
      "startByte t = startByte s + confirmed lg" "ranged env loc D (startByte s) lg"
      "(\<forall>x\<in>set (received lg). status (snd x) = 308) \<longrightarrow> promise t = promise s"
      unfolding P_def by blast
    let ?req = "put_request env loc D (startByte t) c"
    show ?thesis unfolding P_def call_upload_eq snd_conv
    proof (intro exI[of _ "lg @ [Sent ?req]"]
        exI[of _ "ext @ [(?req, network env (length (trace t)))]"] conjI)
      show "ranged env loc D (startByte s) (lg @ [Sent ?req])"
        unfolding t(3) by (rule ranged_Sent[OF t(4)])
    qed (use t in simp_all)
  qed
  have other: "P (receive req res t) \<and> P ((receive req res t)\<lparr>promise := p\<rparr>)"
    if "P t" "status res \<noteq> 308" for req res t p
  proof -
    from that(1) obtain lg ext where t: "events t = events s @ lg" "trace t = trace s @ ext"
      "startByte t = startByte s + confirmed lg" "ranged env loc D (startByte s) lg"
      unfolding P_def by blast
    have r: "ranged env loc D (startByte s) (lg @ [Received req res])"
      by (rule ranged_Received[OF t(4)])
    show ?thesis unfolding P_def
      by (intro conjI; intro exI[of _ "lg @ [Received req res]"] exI[of _ ext])
         (use t r that(2) in \<open>simp_all add: receive_def\<close>)
  qed
  have advance: "P ((receive req res t)\<lparr>startByte := startByte t + int (length (chunk_of req)),
                       paused := False\<rparr>)"
    if "P t" "status res = 308" for req res t
  proof -
    from that(1) obtain lg ext where t: "events t = events s @ lg" "trace t = trace s @ ext"
      "startByte t = startByte s + confirmed lg" "ranged env loc D (startByte s) lg"
      "(\<forall>x\<in>set (received lg). status (snd x) = 308) \<longrightarrow> promise t = promise s"
      unfolding P_def by blast
    have r: "ranged env loc D (startByte s) (lg @ [Received req res])"
      by (rule ranged_Received[OF t(4)])
    show ?thesis unfolding P_def
      by (intro exI[of _ "lg @ [Received req res]"] exI[of _ ext])
         (use t r that(2) in \<open>simp add: receive_def\<close>)
  qed
  have step: "P (snd (resume_upload env loc D u t))" if Pt: "P t" and ok: "closure_ok u" for u t
  proof (cases rule: resume_upload_cases[of u env loc D t])
    case complete
    then have "status (up_response u) \<noteq> 308" by simp
    from other[OF Pt this] show ?thesis
      unfolding complete(2) snd_conv resolve_def by (simp split: if_splits)
  next
    case continue
    from advance[OF Pt continue(1), of "up_request u"] show ?thesis
      unfolding continue(2) snd_conv
      using ok by (simp add: closure_ok_def)
  next
    case failed
    then have "status (up_response u) \<noteq> 308" by (simp add: failing_def)
    from other[OF Pt this] show ?thesis
      unfolding failed(3) snd_conv reject_def by (simp split: if_splits)
  next
    case retry
    then have "status (up_response u) \<noteq> 308" by (simp add: failing_def)
    from other[OF Pt this] have "P (receive (up_request u) (up_response u) t)" by blast
    from call[OF this] show ?thesis unfolding retry(3) by (simp add: split_beta)
  qed
  have buf: "P (t\<lparr>bufferData := b\<rparr>)" if "P t" for t b
    using that unfolding P_def by simp
  have pause: "P (t\<lparr>paused := True\<rparr>)" if "P t" for t
    using that unfolding P_def by simp
  from stream_events_run[of P s env loc D eof C frags, OF init call step buf pause]
  show ?thesis unfolding P_def .
qed

subsection \<open>One upload alone\<close>

lemma exchanges_append [simp]: "exchanges (a @ b) = exchanges a @ exchanges b"
  by (induction a rule: exchanges.induct) simp_all

lemma await_none: "await_uploads env loc D n None None s = Some s"
  by (subst await_uploads.simps) simp

lemma await_end:
  "await_uploads env loc D n None (Some u) s =
     (case resume_upload env loc D u s of
        (e', s') \<Rightarrow> await_uploads env loc D (n + 1) None e' s')"
  by (subst await_uploads.simps) simp

lemma await_data:
  "await_uploads env loc D n (Some (u, left)) None s =
     (case resume_upload env loc D u s of
        (None, s') \<Rightarrow> await_uploads env loc D (n + 1) None None (s'\<lparr>bufferData := [left]\<rparr>)
      | (Some u', s') \<Rightarrow> await_uploads env loc D (n + 1) (Some (u', left)) None s')"
  by (subst await_uploads.simps) simp

text \<open>One upload alone, from its call to its end.\<close>

lemma upload_last:
  assumes "\<not> failing (network env (length (trace s))) \<or> k = 3"
    and "call_upload env loc D c k s = (u, s1)"
  shows "await_uploads env loc D n None (Some u) s1 =
     Some (settle env c (network env (length (trace s)))
            (s\<lparr>trace := trace s @ [(put_request env loc D (startByte s) c, network env (length (trace s)))],
               events := events s @ [Sent (put_request env loc D (startByte s) c),
                  Received (put_request env loc D (startByte s) c) (network env (length (trace s)))]\<rparr>))"
    and "await_uploads env loc D n (Some (u, left)) None s1 =
     Some ((settle env c (network env (length (trace s)))
            (s\<lparr>trace := trace s @ [(put_request env loc D (startByte s) c, network env (length (trace s)))],
               events := events s @ [Sent (put_request env loc D (startByte s) c),
                  Received (put_request env loc D (startByte s) c) (network env (length (trace s)))]\<rparr>))
            \<lparr>bufferData := [left]\<rparr>)"
proof -
  have u: "u = \<lparr>up_chunk = c, up_count = k, up_request = put_request env loc D (startByte s) c,
       up_response = network env (length (trace s))\<rparr>"
    and s1: "s1 = s\<lparr>trace := trace s @ [(put_request env loc D (startByte s) c, network env (length (trace s)))],
        events := events s @ [Sent (put_request env loc D (startByte s) c)]\<rparr>"
    using assms(2) by (simp_all add: call_upload_eq)
  have r: "resume_upload env loc D u s1 =
     (None, settle env c (network env (length (trace s)))
            (s\<lparr>trace := trace s @ [(put_request env loc D (startByte s) c, network env (length (trace s)))],
               events := events s @ [Sent (put_request env loc D (startByte s) c),
                  Received (put_request env loc D (startByte s) c) (network env (length (trace s)))]\<rparr>))"
    using assms(1) unfolding u s1
    by (auto simp: resume_upload_def Let_def settle_def receive_def failing_def ok_def
        resolve_def reject_def)
  show "await_uploads env loc D n None (Some u) s1 = Some (settle env c (network env (length (trace s)))
            (s\<lparr>trace := trace s @ [(put_request env loc D (startByte s) c, network env (length (trace s)))],
               events := events s @ [Sent (put_request env loc D (startByte s) c),
                  Received (put_request env loc D (startByte s) c) (network env (length (trace s)))]\<rparr>))"
    by (simp add: await_end r await_none)
  show "await_uploads env loc D n (Some (u, left)) None s1 =
     Some ((settle env c (network env (length (trace s)))
            (s\<lparr>trace := trace s @ [(put_request env loc D (startByte s) c, network env (length (trace s)))],
               events := events s @ [Sent (put_request env loc D (startByte s) c),
                  Received (put_request env loc D (startByte s) c) (network env (length (trace s)))]\<rparr>))
            \<lparr>bufferData := [left]\<rparr>)"
    by (simp add: await_data r await_none)
qed

lemma upload_retry:
  assumes "failing (network env (length (trace s)))" "k \<noteq> 3"
    and "call_upload env loc D c k s = (u, s1)"
    and "call_upload env loc D c (k + 1)
           (s\<lparr>trace := trace s @ [(put_request env loc D (startByte s) c, network env (length (trace s)))],
              events := events s @ [Sent (put_request env loc D (startByte s) c),
                  Received (put_request env loc D (startByte s) c) (network env (length (trace s)))]\<rparr>)
         = (u', s1')"
  shows "await_uploads env loc D n None (Some u) s1 = await_uploads env loc D (n + 1) None (Some u') s1'"
    and "await_uploads env loc D n (Some (u, left)) None s1 =
         await_uploads env loc D (n + 1) (Some (u', left)) None s1'"
proof -
  have u: "u = \<lparr>up_chunk = c, up_count = k, up_request = put_request env loc D (startByte s) c,
       up_response = network env (length (trace s))\<rparr>"
    and s1: "s1 = s\<lparr>trace := trace s @ [(put_request env loc D (startByte s) c, network env (length (trace s)))],
        events := events s @ [Sent (put_request env loc D (startByte s) c)]\<rparr>"
    using assms(3) by (simp_all add: call_upload_eq)
  have "receive (up_request u) (up_response u) s1 =
      s\<lparr>trace := trace s @ [(put_request env loc D (startByte s) c, network env (length (trace s)))],
              events := events s @ [Sent (put_request env loc D (startByte s) c),
                  Received (put_request env loc D (startByte s) c) (network env (length (trace s)))]\<rparr>"
    unfolding u s1 by (simp add: receive_def)
  then have r: "resume_upload env loc D u s1 = (Some u', s1')"
    using assms(1,2,4) unfolding u
    by (simp add: resume_upload_def Let_def failing_def ok_def)
  show "await_uploads env loc D n None (Some u) s1 = await_uploads env loc D (n + 1) None (Some u') s1'"
    by (simp add: await_end r)
  show "await_uploads env loc D n (Some (u, left)) None s1 =
         await_uploads env loc D (n + 1) (Some (u', left)) None s1'"
    by (simp add: await_data r)
qed


lemma attempt_log_Cons:
  "(req, network env n) # attempt_log env req (Suc n) m = attempt_log env req n (Suc m)"
  by (simp add: attempt_log_def upt_conv_Cons map_Suc_upt[symmetric] del: upt_Suc)

lemma upload_result:
  assumes "k \<le> 3" and "call_upload env loc D c k s = (u, s1)"
  shows "\<exists>j. k + j \<le> 3 \<and>
     (\<forall>i<j. failing (network env (length (trace s) + i))) \<and>
     (failing (network env (length (trace s) + j)) \<longrightarrow> k + j = 3) \<and>
     await_uploads env loc D n None (Some u) s1 =
       Some (settle env c (network env (length (trace s) + j))
              (s\<lparr>trace := trace s @ attempt_log env (put_request env loc D (startByte s) c) (length (trace s)) j
                     @ [(put_request env loc D (startByte s) c, network env (length (trace s) + j))],
                 events := events s @ exchanges
                   (attempt_log env (put_request env loc D (startByte s) c) (length (trace s)) j
                     @ [(put_request env loc D (startByte s) c, network env (length (trace s) + j))])\<rparr>)) \<and>
     await_uploads env loc D n (Some (u, left)) None s1 =
       Some ((settle env c (network env (length (trace s) + j))
              (s\<lparr>trace := trace s @ attempt_log env (put_request env loc D (startByte s) c) (length (trace s)) j
                     @ [(put_request env loc D (startByte s) c, network env (length (trace s) + j))],
                 events := events s @ exchanges
                   (attempt_log env (put_request env loc D (startByte s) c) (length (trace s)) j
                     @ [(put_request env loc D (startByte s) c, network env (length (trace s) + j))])\<rparr>))
             \<lparr>bufferData := [left]\<rparr>)"
  using assms
proof (induction "3 - k" arbitrary: k s u s1 n)
  case 0
  then have k: "k = 3" by simp
  show ?case
    by (rule exI[of _ 0])
       (simp add: k upload_last[OF _ "0.prems"(2)[unfolded k]] attempt_log_def)
next
  case (Suc d)
  then have k: "k \<noteq> 3" "k + 1 \<le> 3" "d = 3 - (k + 1)" by simp_all
  show ?case
  proof (cases "failing (network env (length (trace s)))")
    case False
    then show ?thesis
      by (intro exI[of _ 0])
         (use Suc.prems in \<open>simp add: upload_last[OF _ Suc.prems(2)] attempt_log_def\<close>)
  next
    case True
    let ?req = "put_request env loc D (startByte s) c"
    let ?s1 = "s\<lparr>trace := trace s @ [(?req, network env (length (trace s)))],
                 events := events s @ [Sent ?req, Received ?req (network env (length (trace s)))]\<rparr>"
    obtain u' s1' where c': "call_upload env loc D c (k + 1) ?s1 = (u', s1')"
      by (cases "call_upload env loc D c (k + 1) ?s1")
    from Suc.hyps(1)[OF k(3) k(2) c', of "n + 1"] obtain j where j:
      "k + 1 + j \<le> 3"
      "\<forall>i<j. failing (network env (length (trace ?s1) + i))"
      "failing (network env (length (trace ?s1) + j)) \<longrightarrow> k + 1 + j = 3"
      "await_uploads env loc D (n + 1) None (Some u') s1' =
        Some (settle env c (network env (length (trace ?s1) + j))
              (?s1\<lparr>trace := trace ?s1 @ attempt_log env (put_request env loc D (startByte ?s1) c) (length (trace ?s1)) j
                  @ [(put_request env loc D (startByte ?s1) c, network env (length (trace ?s1) + j))],
                 events := events ?s1 @ exchanges
                   (attempt_log env (put_request env loc D (startByte ?s1) c) (length (trace ?s1)) j
                     @ [(put_request env loc D (startByte ?s1) c, network env (length (trace ?s1) + j))])\<rparr>))"
      "await_uploads env loc D (n + 1) (Some (u', left)) None s1' =
        Some ((settle env c (network env (length (trace ?s1) + j))
              (?s1\<lparr>trace := trace ?s1 @ attempt_log env (put_request env loc D (startByte ?s1) c) (length (trace ?s1)) j
                  @ [(put_request env loc D (startByte ?s1) c, network env (length (trace ?s1) + j))],
                 events := events ?s1 @ exchanges
                   (attempt_log env (put_request env loc D (startByte ?s1) c) (length (trace ?s1)) j
                     @ [(put_request env loc D (startByte ?s1) c, network env (length (trace ?s1) + j))])\<rparr>))
              \<lparr>bufferData := [left]\<rparr>)"
      by blast
    note retry = upload_retry[OF True k(1) Suc.prems(2) c']
    show ?thesis
    proof (intro exI[of _ "Suc j"] conjI)
      show "await_uploads env loc D n None (Some u) s1 =
       Some (settle env c (network env (length (trace s) + Suc j))
              (s\<lparr>trace := trace s @ attempt_log env ?req (length (trace s)) (Suc j)
                   @ [(?req, network env (length (trace s) + Suc j))],
                 events := events s @ exchanges (attempt_log env ?req (length (trace s)) (Suc j)
                   @ [(?req, network env (length (trace s) + Suc j))])\<rparr>))"
        using j(4) by (simp add: retry(1) attempt_log_Cons[symmetric])
      show "await_uploads env loc D n (Some (u, left)) None s1 =
       Some ((settle env c (network env (length (trace s) + Suc j))
              (s\<lparr>trace := trace s @ attempt_log env ?req (length (trace s)) (Suc j)
                   @ [(?req, network env (length (trace s) + Suc j))],
                 events := events s @ exchanges (attempt_log env ?req (length (trace s)) (Suc j)
                   @ [(?req, network env (length (trace s) + Suc j))])\<rparr>))
             \<lparr>bufferData := [left]\<rparr>)"
        using j(5) by (simp add: retry(2) attempt_log_Cons[symmetric])
      show "\<forall>i<Suc j. failing (network env (length (trace s) + i))"
      proof (intro allI impI)
        fix i assume "i < Suc j"
        then show "failing (network env (length (trace s) + i))"
          using j(2) True by (cases i) auto
      qed
    qed (use j in auto)
  qed
qed

lemma upload_round:
  assumes "call_upload env loc D c 0 s = (u, s1)"
  shows "\<exists>j s'. round env loc D c j s s' \<and>
     await_uploads env loc D n None (Some u) s1 = Some s' \<and>
     await_uploads env loc D n (Some (u, left)) None s1 = Some (s'\<lparr>bufferData := [left]\<rparr>)"
  using upload_result[where k = 0 and n = n and left = left, OF _ assms]
  unfolding round_def by auto


lemma attempt_log_set:
  "x \<in> set (attempt_log env req n j) \<Longrightarrow> fst x = req \<and> (\<exists>i<j. snd x = network env (n + i))"
  by (auto simp: attempt_log_def)

lemma round_cases [consumes 1]:
  assumes "round env loc D c j s s'"
  obtains
    (complete) fl r where
      "fl = attempt_log env (put_request env loc D (startByte s) c) (length (trace s)) j"
      "r = network env (length (trace s) + j)"
      "trace s' = trace s @ fl @ [(put_request env loc D (startByte s) c, r)]"
      "\<forall>x\<in>set fl. fst x = put_request env loc D (startByte s) c \<and> failing (snd x)"
      "status r = 200" "startByte s' = startByte s" "paused s' = paused s"
      "promise s' = (if promise s = Pending then Resolved (parsed env r) else promise s)"
      "bufferData s' = bufferData s" "uncaught s' = uncaught s"
      "events s' = events s @ exchanges (fl @ [(put_request env loc D (startByte s) c, r)])"
  | (continue) fl r where
      "fl = attempt_log env (put_request env loc D (startByte s) c) (length (trace s)) j"
      "r = network env (length (trace s) + j)"
      "trace s' = trace s @ fl @ [(put_request env loc D (startByte s) c, r)]"
      "\<forall>x\<in>set fl. fst x = put_request env loc D (startByte s) c \<and> failing (snd x)"
      "status r = 308" "startByte s' = startByte s + int (length c)" "\<not> paused s'"
      "promise s' = promise s"
      "bufferData s' = bufferData s" "uncaught s' = uncaught s"
      "events s' = events s @ exchanges (fl @ [(put_request env loc D (startByte s) c, r)])"
  | (failed) fl r where
      "fl = attempt_log env (put_request env loc D (startByte s) c) (length (trace s)) j"
      "r = network env (length (trace s) + j)"
      "trace s' = trace s @ fl @ [(put_request env loc D (startByte s) c, r)]"
      "\<forall>x\<in>set fl. fst x = put_request env loc D (startByte s) c \<and> failing (snd x)"
      "failing r" "j = 3" "startByte s' = startByte s" "paused s' = paused s"
      "promise s' = (if promise s = Pending then Rejected (status r) (Text (body_text r)) else promise s)"
      "bufferData s' = bufferData s" "uncaught s' = uncaught s"
      "events s' = events s @ exchanges (fl @ [(put_request env loc D (startByte s) c, r)])"
proof -
  let ?req = "put_request env loc D (startByte s) c"
  let ?fl = "attempt_log env ?req (length (trace s)) j"
  let ?r = "network env (length (trace s) + j)"
  have fl: "\<forall>x\<in>set ?fl. fst x = ?req \<and> failing (snd x)"
    using assms by (auto simp: round_def dest!: attempt_log_set)
  have s': "s' = settle env c ?r (s\<lparr>trace := trace s @ ?fl @ [(?req, ?r)],
       events := events s @ exchanges (?fl @ [(?req, ?r)])\<rparr>)"
    using assms by (simp add: round_def)
  consider "status ?r = 200" | "status ?r = 308" | "failing ?r"
    by (auto simp: failing_def)
  then show thesis
  proof cases
    case 1
    show thesis
      by (rule complete[of ?fl ?r]) (use 1 fl s' in \<open>simp_all add: settle_def resolve_def parsed_def\<close>)
  next
    case 2
    show thesis
      by (rule continue[of ?fl ?r]) (use 2 fl s' in \<open>simp_all add: settle_def\<close>)
  next
    case 3
    then have "j = 3" using assms by (simp add: round_def)
    with 3 show thesis
      by (intro failed[of ?fl ?r]) (use fl s' in \<open>simp_all add: settle_def reject_def failing_def\<close>)
  qed
qed

lemma stream_events_Nil:
  "stream_events env eof loc D C [] s = (if paused s then Some s else end_event env loc D s)"
  by (simp add: end_event_def)

lemma stream_events_Cons:
  "stream_events env False loc D C (f # fs) s =
     (if paused s then Some s
      else data_event env loc D C f s \<bind> stream_events env False loc D C fs)"
  by (simp add: data_event_def split: prod.splits)

lemma stream_events_invariant:
  assumes init: "I frags s"
    and data: "\<And>f fs s. I (f # fs) s \<Longrightarrow> \<not> paused s \<Longrightarrow>
                 \<exists>s1. data_event env loc D C f s = Some s1 \<and> I fs s1"
    and stop: "\<And>fs s. I fs s \<Longrightarrow> paused s \<Longrightarrow> Q s"
    and fin: "\<And>s. I [] s \<Longrightarrow> \<not> paused s \<Longrightarrow> \<exists>s1. end_event env loc D s = Some s1 \<and> Q s1"
  shows "\<exists>s'. stream_events env False loc D C frags s = Some s' \<and> Q s'"
  using init
proof (induction frags arbitrary: s)
  case Nil
  then show ?case using stop fin
    by (cases "paused s") (auto simp: stream_events_Nil simp del: stream_events.simps)
next
  case (Cons f fs)
  show ?case
  proof (cases "paused s")
    case True
    then show ?thesis using stop[OF Cons.prems]
      by (simp add: stream_events_Cons del: stream_events.simps)
  next
    case False
    from data[OF Cons.prems False] obtain s1 where
      s1: "data_event env loc D C f s = Some s1" "I fs s1" by blast
    from Cons.IH[OF s1(2)] show ?thesis using False s1(1)
      by (simp add: stream_events_Cons del: stream_events.simps)
  qed
qed

lemma data_event_cases:
  obtains (buffered) "int (length (concat (bufferData s) @ f)) < C"
      "data_event env loc D C f s = Some (s\<lparr>bufferData := bufferData s @ [f]\<rparr>)"
  | (sent) j s2 where "C \<le> int (length (concat (bufferData s) @ f))"
      "round env loc D (buffer_slice (concat (bufferData s) @ f) 0 (Some C)) j
         (s\<lparr>bufferData := bufferData s @ [f], paused := True\<rparr>) s2"
      "data_event env loc D C f s = Some (s2\<lparr>bufferData := [buffer_slice (concat (bufferData s) @ f) C None]\<rparr>)"
proof (cases "int (length (concat (bufferData s) @ f)) < C")
  case True
  then show ?thesis using buffered by (simp add: data_event_def on_data_eq await_none)
next
  case False
  let ?c = "buffer_slice (concat (bufferData s) @ f) 0 (Some C)"
  let ?t = "s\<lparr>bufferData := bufferData s @ [f], paused := True\<rparr>"
  obtain u s1 where c: "call_upload env loc D ?c 0 ?t = (u, s1)"
    by (cases "call_upload env loc D ?c 0 ?t")
  from upload_round[OF c, of 0 "buffer_slice (concat (bufferData s) @ f) C None"]
  obtain j s2 where
    "round env loc D ?c j ?t s2"
    "await_uploads env loc D 0 (Some (u, buffer_slice (concat (bufferData s) @ f) C None)) None s1
       = Some (s2\<lparr>bufferData := [buffer_slice (concat (bufferData s) @ f) C None]\<rparr>)"
    by blast
  then show ?thesis using False sent[of j s2] c by (simp add: data_event_def on_data_eq)
qed

lemma end_event_cases:
  obtains (empty) "concat (bufferData s) = []" "end_event env loc D s = Some s"
  | (sent) j s2 where "concat (bufferData s) \<noteq> []"
      "round env loc D (concat (bufferData s)) j s s2"
      "end_event env loc D s = Some s2"
proof (cases "concat (bufferData s) = []")
  case True
  then show ?thesis using empty by (simp add: end_event_def on_end_eq await_none)
next
  case False
  obtain u s1 where c: "call_upload env loc D (concat (bufferData s)) 0 s = (u, s1)"
    by (cases "call_upload env loc D (concat (bufferData s)) 0 s")
  from upload_round[OF c, of 0]
  obtain j s2 where
    "round env loc D (concat (bufferData s)) j s s2"
    "await_uploads env loc D 0 None (Some u) s1 = Some s2"
    by blast
  then show ?thesis using False sent[of j s2] c by (simp add: end_event_def on_end_eq)
qed


lemma length_slice_chunk:
  "0 \<le> c \<Longrightarrow> c \<le> int (length buf) \<Longrightarrow> int (length (buffer_slice buf 0 (Some c))) = c"
  by (simp add: buffer_slice_def slice_index_def Let_def)

lemma length_slice_rest:
  "0 \<le> c \<Longrightarrow> c \<le> int (length buf) \<Longrightarrow>
   int (length (buffer_slice buf c None)) = int (length buf) - c"
  by (simp add: buffer_slice_def slice_index_def Let_def)

subsection \<open>Requests in flight together\<close>

text \<open>
  When the \<open>end\<close> handler runs while the upload of the \<open>data\<close> handler waits, the log has
  two requests sent in a row. A run whose log has no such pair is a run in which \<open>end\<close> came
  after the \<open>data\<close> handler had finished.
\<close>

lemma overlapping_Cons: "overlapping es \<Longrightarrow> overlapping (ev # es)"
  by (cases "ev # es" rule: overlapping.cases) auto

lemma overlapping_append2: "overlapping b \<Longrightarrow> overlapping (a @ b)"
  by (induction a) (simp_all add: overlapping_Cons)

lemma overlapping_append1: "overlapping a \<Longrightarrow> overlapping (a @ b)"
  by (induction a rule: overlapping.induct) simp_all

lemma resume_upload_events:
  "\<exists>lg. events (snd (resume_upload env loc D u t)) = events t @ lg"
  by (cases rule: resume_upload_cases[of u env loc D t])
     (simp_all add: receive_def resolve_def reject_def call_upload_eq)

lemma await_uploads_events:
  assumes "\<forall>u left. d = Some (u, left) \<longrightarrow> closure_ok u"
    and "\<forall>u. e = Some u \<longrightarrow> closure_ok u"
  shows "\<exists>s' lg. await_uploads env loc D n d e s = Some s' \<and> events s' = events s @ lg"
proof -
  define P where "P = (\<lambda>t::'a state. \<exists>lg. events t = events s @ lg)"
  have "P s" unfolding P_def by simp
  moreover have "P (snd (resume_upload env loc D u t))" if "P t" for u t
    using that resume_upload_events[of env loc D u t] unfolding P_def by auto
  moreover have "P (t\<lparr>bufferData := b\<rparr>)" if "P t" for t b
    using that unfolding P_def by simp
  ultimately have "\<exists>s'. await_uploads env loc D n d e s = Some s' \<and> P s'"
    using assms by (intro await_uploads_invariant) auto
  then show ?thesis unfolding P_def by blast
qed

lemma stream_events_no_overlap:
  assumes "stream_events env True loc D C frags s = Some s'"
    and "events s' = events s @ lg" and "\<not> overlapping lg"
  shows "stream_events env False loc D C frags s = Some s'"
  using assms
proof (induction frags arbitrary: s lg)
  case Nil
  then show ?case by simp
next
  case (Cons f fs)
  show ?case
  proof (cases "paused s")
    case True
    then show ?thesis using Cons.prems(1) by simp
  next
    case np: False
    obtain d s1 where d: "on_data env loc D C f s = (d, s1)" by (cases "on_data env loc D C f s")
    have dok: "\<forall>u left. d = Some (u, left) \<longrightarrow> closure_ok u"
      using on_data_run(2)[of "\<lambda>t. True" s env loc D C f] d by simp
    show ?thesis
    proof (cases "fs = []")
      case False
      from await_uploads_events[OF dok, of None env loc D 0 s1]
      obtain s2 lg1 where s2: "await_uploads env loc D 0 d None s1 = Some s2"
        "events s2 = events s1 @ lg1" by auto
      have run: "stream_events env True loc D C fs s2 = Some s'"
        using Cons.prems(1) np False d s2(1) by simp
      from stream_events_log[of env True loc D C fs s2] run
      obtain lg2 where lg2: "events s' = events s2 @ lg2" by auto
      have "\<exists>lg0. events s1 = events s @ lg0"
        using d by (auto simp: on_data_eq call_upload_eq split: if_splits)
      then obtain lg0 where "events s1 = events s @ lg0" by blast
      then have "lg = (lg0 @ lg1) @ lg2" using Cons.prems(2) lg2 s2(2) by simp
      then have "\<not> overlapping lg2" using Cons.prems(3) overlapping_append2 by blast
      from Cons.IH[OF run lg2 this] show ?thesis using np False d s2(1) by simp
    next
      case last: True
      obtain e s2 where e: "on_end env loc D s1 = (e, s2)" by (cases "on_end env loc D s1")
      have run: "await_uploads env loc D 0 d e s2 = Some s'"
        using Cons.prems(1) np last d e by simp
      show ?thesis
      proof (cases d)
        case None
        then have "s1 = s\<lparr>bufferData := bufferData s @ [f]\<rparr>"
          using d by (auto simp: on_data_eq call_upload_eq split: if_splits)
        then have "\<not> paused s1" using np by simp
        then show ?thesis using np last d e run None by (simp add: await_none)
      next
        case (Some p)
        obtain u left where p: "p = (u, left)" by (cases p)
        let ?temp = "concat (bufferData s) @ f"
        let ?t = "s\<lparr>bufferData := bufferData s @ [f], paused := True\<rparr>"
        let ?req = "put_request env loc D (startByte s) (buffer_slice ?temp 0 (Some C))"
        have C: "C \<le> int (length ?temp)" and left: "left = buffer_slice ?temp C None"
          and s1: "s1 = ?t\<lparr>trace := trace s @ [(?req, network env (length (trace s)))],
                         events := events s @ [Sent ?req]\<rparr>"
          using d Some p by (auto simp: on_data_eq call_upload_eq split: if_splits)
        show ?thesis
        proof (cases "concat (bufferData s1) = []")
          case True
          then have temp: "?temp = []" using s1 by simp
          have e': "e = None" "s2 = s1" using e True by (simp_all add: on_end_eq)
          have de: "data_event env loc D C f s = Some s'"
            using run e' d by (simp add: data_event_def)
          have "bufferData s' = [left]"
            using de left by (cases rule: data_event_cases[of s f C env loc D]) (use C in auto)
          moreover have "left = []" unfolding left temp by (simp add: buffer_slice_def)
          ultimately have "concat (bufferData s') = []" by simp
          then have "end_event env loc D s' = Some s'"
            by (simp add: end_event_def on_end_eq await_none)
          then show ?thesis using np de unfolding last
            by (simp add: stream_events_Cons stream_events_Nil del: stream_events.simps)
        next
          case False
          let ?req2 = "put_request env loc D (startByte s1) (concat (bufferData s1))"
          have e': "\<forall>u. e = Some u \<longrightarrow> closure_ok u"
            using on_end_run(2)[of "\<lambda>t. True" s1 env loc D] e by simp
          have s2: "events s2 = events s1 @ [Sent ?req2]"
            using e False by (auto simp: on_end_eq call_upload_eq)
          from await_uploads_events[OF dok e', of env loc D 0 s2] run
          obtain lg' where "events s' = events s2 @ lg'" by auto
          then have "lg = [Sent ?req, Sent ?req2] @ lg'"
            using Cons.prems(2) s2 s1 by simp
          then have "overlapping lg" by simp
          then show ?thesis using Cons.prems(3) by simp
        qed
      qed
    qed
  qed
qed

subsection \<open>Numerals\<close>

lemma digit_char:
  assumes "k < 10"
  shows "digit_value (''0123456789'' ! k) = k" and "''0123456789'' ! k \<in> set ''0123456789''"
    and "0 < k \<Longrightarrow> ''0123456789'' ! k \<noteq> CHR ''0''"
proof -
  from assms have "k \<in> {0, 1, 2, 3, 4, 5, 6, 7, 8, 9}" by auto
  then show "digit_value (''0123456789'' ! k) = k" by (auto simp: digit_value_def)
  show "''0123456789'' ! k \<in> set ''0123456789''" using assms by (intro nth_mem) simp
  from \<open>k \<in> _\<close> show "0 < k \<Longrightarrow> ''0123456789'' ! k \<noteq> CHR ''0''" by auto
qed

lemma decimal_value_snoc: "decimal_value (ds @ [c]) = 10 * decimal_value ds + digit_value c"
  by (simp add: decimal_value_def)

lemma digits_decimal: "decimal_value (digits n) = n"
proof (induction n rule: digits.induct)
  case (1 n)
  show ?case
  proof (cases "n < 10")
    case True
    then show ?thesis by (subst digits.simps) (simp add: decimal_value_def digit_char(1))
  next
    case False
    have "n mod 10 < 10" by simp
    then show ?thesis using False 1
      by (subst digits.simps) (simp add: decimal_value_snoc digit_char(1))
  qed
qed

lemma digits_chars: "set (digits n) \<subseteq> set ''0123456789''"
proof (induction n rule: digits.induct)
  case (1 n)
  have m: "n mod 10 < 10" by simp
  show ?case
  proof (cases "n < 10")
    case True
    then show ?thesis using digit_char(2)[OF True] by (subst digits.simps) simp
  next
    case False
    then show ?thesis using 1 digit_char(2)[OF m] by (subst digits.simps) simp
  qed
qed

lemma digits_nonempty: "digits n \<noteq> []"
  by (subst digits.simps) simp

lemma digits_no_leading_zero: "0 < n \<Longrightarrow> hd (digits n) \<noteq> CHR ''0''"
proof (induction n rule: digits.induct)
  case (1 n)
  show ?case
  proof (cases "n < 10")
    case True
    then show ?thesis using digit_char(3)[OF True] 1(2) by (subst digits.simps) simp
  next
    case False
    then have "0 < n div 10" by simp
    then show ?thesis using False 1(1) digits_nonempty[of "n div 10"]
      by (subst digits.simps) simp
  qed
qed

subsection \<open>The confirmed offset\<close>

text \<open>
  Claim C4. The offset \<open>startByte\<close> is 0 in the initial state. When the response that an
  upload waits on is a 308, \<open>upload\<close> returns without a retry, the offset has grown by the
  length of the chunk of that upload, the promise is as it was and the stream is resumed. No
  other response and neither handler changes the offset. Over the stream phase, from any
  state and with any timing, the offset grows by \<open>confirmed lg\<close>: the sum, over the 308
  responses received, of the length of the chunk that the answered request carried; so it
  never decreases. When every response received in the phase is a 308, the promise is at the
  end as it was at the start.
\<close>

theorem C4_offset_advances_on_308:
  "startByte (initial :: 'j state) = 0 \<and>
   (status (up_response u) = 308 \<longrightarrow>
      (\<exists>t'. resume_upload env loc D u (t :: 'j state) = (None, t') \<and>
            startByte t' = startByte t + int (length (up_chunk u)) \<and>
            promise t' = promise t \<and> \<not> paused t')) \<and>
   (status (up_response u) \<noteq> 308 \<longrightarrow>
      startByte (snd (resume_upload env loc D u t)) = startByte t) \<and>
   startByte (snd (on_data env loc D C f t)) = startByte t \<and>
   startByte (snd (on_end env loc D t)) = startByte t \<and>
   (\<exists>s'. stream_events env eof loc D C frags (s :: 'j state) = Some s' \<and>
      (\<exists>lg. events s' = events s @ lg \<and>
         startByte s' = startByte s + confirmed lg \<and>
         startByte s \<le> startByte s' \<and>
         ((\<forall>x\<in>set (received lg). status (snd x) = 308) \<longrightarrow> promise s' = promise s)))"
proof (intro conjI)
  show "startByte (initial :: 'j state) = 0" by (simp add: initial_def)
next
  show "status (up_response u) = 308 \<longrightarrow>
      (\<exists>t'. resume_upload env loc D u t = (None, t') \<and>
            startByte t' = startByte t + int (length (up_chunk u)) \<and>
            promise t' = promise t \<and> \<not> paused t')"
    by (cases rule: resume_upload_cases[of u env loc D t])
       (simp_all add: failing_def receive_def)
next
  show "status (up_response u) \<noteq> 308 \<longrightarrow>
      startByte (snd (resume_upload env loc D u t)) = startByte t"
    by (cases rule: resume_upload_cases[of u env loc D t])
       (simp_all add: receive_def resolve_def reject_def call_upload_eq)
next
  show "startByte (snd (on_data env loc D C f t)) = startByte t"
    by (simp add: on_data_eq call_upload_eq)
next
  show "startByte (snd (on_end env loc D t)) = startByte t"
    by (simp add: on_end_eq call_upload_eq)
next
  from stream_events_log[of env eof loc D C frags s]
  obtain s' lg where s': "stream_events env eof loc D C frags s = Some s'"
    "events s' = events s @ lg" "startByte s' = startByte s + confirmed lg"
    "(\<forall>x\<in>set (received lg). status (snd x) = 308) \<longrightarrow> promise s' = promise s"
    by blast
  have "startByte s \<le> startByte s'" using s'(3) confirmed_nonneg[of lg] by simp
  with s' show "\<exists>s'. stream_events env eof loc D C frags s = Some s' \<and>
      (\<exists>lg. events s' = events s @ lg \<and>
         startByte s' = startByte s + confirmed lg \<and>
         startByte s \<le> startByte s' \<and>
         ((\<forall>x\<in>set (received lg). status (snd x) = 308) \<longrightarrow> promise s' = promise s))"
    by blast
qed

text \<open>
  A file of one fragment of 8 bytes and a chunk size of 4, with the end of the file buffered:
  the \<open>data\<close> handler sends the first 4 bytes, the \<open>end\<close> handler the 8 bytes of the buffer,
  and the two 308 responses move the offset to 12.
\<close>

lemma sample_run_overlap:
  "map_option (\<lambda>t. (map (\<lambda>x. (chunk_of (fst x), status (snd x))) (received (events t)), overlapping (events t)))
     (stream_events (sample_env []) True (Some ''u'') 8 4 [[1, 2, 3, 4, 5, 6, 7, 8]] initial) =
   Some ([([1, 2, 3, 4], 308), ([1, 2, 3, 4, 5, 6, 7, 8], 308)], True)"
  by code_simp

lemma confirmed_received:
  "confirmed lg = (\<Sum>x\<leftarrow>received lg. if status (snd x) = 308 then int (length (chunk_of (fst x))) else 0)"
  by (induction lg rule: confirmed.induct) simp_all

theorem C4_offset_advances_on_308_witness:
  "status (up_response \<lparr>up_chunk = [1, 2, 3, 4], up_count = 0,
        up_request = put_request (sample_env []) (Some ''u'') 8 0 [1, 2, 3, 4],
        up_response = reply 308 []\<rparr>) = 308 \<and>
   (\<exists>t'. resume_upload (sample_env []) (Some ''u'') 8
            \<lparr>up_chunk = [1, 2, 3, 4], up_count = 0,
             up_request = put_request (sample_env []) (Some ''u'') 8 0 [1, 2, 3, 4],
             up_response = reply 308 []\<rparr> (initial :: string state) = (None, t') \<and>
          startByte t' = 4 \<and> promise t' = Pending) \<and>
   (\<exists>s'. stream_events (sample_env []) True (Some ''u'') 8 4 [[1, 2, 3, 4, 5, 6, 7, 8]] initial = Some s' \<and>
          (\<forall>x\<in>set (received (events s')). status (snd x) = 308) \<and>
          startByte s' = 12 \<and> promise s' = Pending)"
proof -
  let ?u = "\<lparr>up_chunk = [1, 2, 3, 4], up_count = 0,
        up_request = put_request (sample_env []) (Some ''u'') 8 0 [1, 2, 3, 4],
        up_response = reply 308 []\<rparr>"
  note c4 = C4_offset_advances_on_308[of ?u "sample_env []" "Some ''u''" 8 "initial :: string state"
      4 "[]" True "[[1, 2, 3, 4, 5, 6, 7, 8]]" "initial :: string state"]
  have u: "status (up_response ?u) = 308" by (simp add: reply_def)
  from c4 u obtain t' where t': "resume_upload (sample_env []) (Some ''u'') 8 ?u (initial :: string state) = (None, t')"
    "startByte t' = startByte (initial :: string state) + int (length (up_chunk ?u))"
    "promise t' = promise (initial :: string state)"
    by blast
  from c4 obtain s' lg where s':
    "stream_events (sample_env []) True (Some ''u'') 8 4 [[1, 2, 3, 4, 5, 6, 7, 8]] initial = Some s'"
    "events s' = events (initial :: string state) @ lg"
    "startByte s' = startByte (initial :: string state) + confirmed lg"
    "(\<forall>x\<in>set (received lg). status (snd x) = 308) \<longrightarrow> promise s' = promise (initial :: string state)"
    by blast
  have lg: "lg = events s'" using s'(2) by (simp add: initial_def)
  have r: "map (\<lambda>x. (chunk_of (fst x), status (snd x))) (received lg) =
      [([1, 2, 3, 4], 308), ([1, 2, 3, 4, 5, 6, 7, 8], 308)]"
    using sample_run_overlap s'(1) unfolding lg by simp
  then obtain x y where xy: "received lg = [x, y]" "chunk_of (fst x) = [1, 2, 3, 4]" "status (snd x) = 308"
    "chunk_of (fst y) = [1, 2, 3, 4, 5, 6, 7, 8]" "status (snd y) = 308"
    by auto
  have all: "\<forall>x\<in>set (received lg). status (snd x) = 308" using xy by simp
  have "startByte s' = 12" using s'(3) unfolding confirmed_received xy(1) using xy(2-5)
    by (simp add: initial_def)
  moreover have "promise s' = Pending" using s'(4) all by (simp add: initial_def)
  ultimately show ?thesis using u t' s'(1) all unfolding lg by (simp add: initial_def)
qed

subsection \<open>The shape of a chunk request\<close>

lemma slice_take: "0 \<le> c \<Longrightarrow> buffer_slice buf 0 (Some c) = take (nat c) buf"
  by (simp add: buffer_slice_def slice_index_def Let_def min_def)

lemma slice_drop: "0 \<le> c \<Longrightarrow> c \<le> int (length buf) \<Longrightarrow> buffer_slice buf c None = drop (nat c) buf"
proof -
  assume "0 \<le> c" "c \<le> int (length buf)"
  then have "nat c \<le> length buf" by linarith
  then show ?thesis using \<open>0 \<le> c\<close> by (simp add: buffer_slice_def slice_index_def Let_def min_def)
qed

text \<open>
  Claim C9. Over the stream phase, from any state and with any timing, every request sent
  is a PUT to the value of the \<open>location\<close> header with the one header \<open>Content-Range\<close>,
  whose value is \<open>bytes\<close>, a space, the start, a dash, the end, a slash and \<open>dataSize\<close>; the
  start is the offset at the beginning of the phase plus the bytes of the 308 responses
  received before the request is sent, and the end is the start plus the length of the body
  minus 1. The body is the chunk: for a \<open>data\<close> event with a chunk size between 0 and the
  number of bytes at hand, the first \<open>chunkSize\<close> bytes of the buffer followed by the
  fragment, the rest being kept; for the \<open>end\<close> event, all the bytes of the buffer; for a
  retry, the chunk of the attempt before, at the offset of the moment of the retry. A number
  below \<open>2^53\<close> in absolute value is written in decimal: a minus sign if negative, then
  digits that denote the absolute value, without a leading zero.
\<close>

theorem C9_chunk_request_shape:
  "(\<exists>s'. stream_events env eof loc D C frags (s :: 'j state) = Some s' \<and>
      (\<exists>lg. events s' = events s @ lg \<and>
        (\<forall>i<length lg. \<forall>req. lg ! i = Sent req \<longrightarrow>
           req = \<lparr>http_method = ''PUT'', url = loc,
                  headers = [(''Content-Range'',
                     ''bytes '' @ number_toString (big_toString env) (startByte s + confirmed (take i lg)) @ ''-'' @
                     number_toString (big_toString env)
                       (startByte s + confirmed (take i lg) + int (length (chunk_of req)) - 1) @ ''/'' @
                     number_toString (big_toString env) D)],
                  body = Some (Buffer_body (chunk_of req))\<rparr>))) \<and>
   (0 \<le> C \<and> C \<le> int (length (concat (bufferData t) @ f)) \<longrightarrow>
      (\<exists>u t'. on_data env loc D C f (t :: 'j state) = (Some (u, drop (nat C) (concat (bufferData t) @ f)), t') \<and>
         up_chunk u = take (nat C) (concat (bufferData t) @ f) \<and> up_count u = 0 \<and>
         up_request u = put_request env loc D (startByte t) (take (nat C) (concat (bufferData t) @ f)) \<and>
         events t' = events t @ [Sent (up_request u)])) \<and>
   (concat (bufferData t2) \<noteq> [] \<longrightarrow>
      (\<exists>u t'. on_end env loc D (t2 :: 'j state) = (Some u, t') \<and>
         up_chunk u = concat (bufferData t2) \<and> up_count u = 0 \<and>
         up_request u = put_request env loc D (startByte t2) (concat (bufferData t2)) \<and>
         events t' = events t2 @ [Sent (up_request u)])) \<and>
   (failing (up_response u) \<and> up_count u \<noteq> 3 \<longrightarrow>
      (\<exists>u' t'. resume_upload env loc D u (t3 :: 'j state) = (Some u', t') \<and>
         up_chunk u' = up_chunk u \<and> up_count u' = up_count u + 1 \<and>
         up_request u' = put_request env loc D (startByte t3) (up_chunk u) \<and>
         events t' = events t3 @ [Received (up_request u) (up_response u), Sent (up_request u')])) \<and>
   body (put_request env loc D b c) = Some (Buffer_body c) \<and>
   (\<bar>i\<bar> < 2 ^ 53 \<longrightarrow>
      number_toString big i = (if i < 0 then ''-'' else []) @ digits (nat \<bar>i\<bar>)) \<and>
   decimal_value (digits n) = n \<and> set (digits n) \<subseteq> set ''0123456789'' \<and>
   (0 < n \<longrightarrow> hd (digits n) \<noteq> CHR ''0'')"
proof (intro conjI)
  from stream_events_log[of env eof loc D C frags s]
  obtain s' lg where s': "stream_events env eof loc D C frags s = Some s'"
    "events s' = events s @ lg" "ranged env loc D (startByte s) lg"
    by blast
  have "req = \<lparr>http_method = ''PUT'', url = loc,
                  headers = [(''Content-Range'',
                     ''bytes '' @ number_toString (big_toString env) (startByte s + confirmed (take i lg)) @ ''-'' @
                     number_toString (big_toString env)
                       (startByte s + confirmed (take i lg) + int (length (chunk_of req)) - 1) @ ''/'' @
                     number_toString (big_toString env) D)],
                  body = Some (Buffer_body (chunk_of req))\<rparr>"
    if "i < length lg" "lg ! i = Sent req" for i req
  proof -
    from s'(3) that have "req = put_request env loc D (startByte s + confirmed (take i lg)) (chunk_of req)"
      unfolding ranged_def by blast
    then show ?thesis unfolding put_request_def .
  qed
  with s'(1,2) show "\<exists>s'. stream_events env eof loc D C frags s = Some s' \<and>
      (\<exists>lg. events s' = events s @ lg \<and>
        (\<forall>i<length lg. \<forall>req. lg ! i = Sent req \<longrightarrow>
           req = \<lparr>http_method = ''PUT'', url = loc,
                  headers = [(''Content-Range'',
                     ''bytes '' @ number_toString (big_toString env) (startByte s + confirmed (take i lg)) @ ''-'' @
                     number_toString (big_toString env)
                       (startByte s + confirmed (take i lg) + int (length (chunk_of req)) - 1) @ ''/'' @
                     number_toString (big_toString env) D)],
                  body = Some (Buffer_body (chunk_of req))\<rparr>))"
    by blast
next
  show "0 \<le> C \<and> C \<le> int (length (concat (bufferData t) @ f)) \<longrightarrow>
      (\<exists>u t'. on_data env loc D C f t = (Some (u, drop (nat C) (concat (bufferData t) @ f)), t') \<and>
         up_chunk u = take (nat C) (concat (bufferData t) @ f) \<and> up_count u = 0 \<and>
         up_request u = put_request env loc D (startByte t) (take (nat C) (concat (bufferData t) @ f)) \<and>
         events t' = events t @ [Sent (up_request u)])"
  proof
    assume C: "0 \<le> C \<and> C \<le> int (length (concat (bufferData t) @ f))"
    then have "buffer_slice (concat (bufferData t) @ f) 0 (Some C) = take (nat C) (concat (bufferData t) @ f)"
      "buffer_slice (concat (bufferData t) @ f) C None = drop (nat C) (concat (bufferData t) @ f)"
      using slice_take[of C "concat (bufferData t) @ f"] slice_drop[of C "concat (bufferData t) @ f"]
      by simp_all
    then show "\<exists>u t'. on_data env loc D C f t = (Some (u, drop (nat C) (concat (bufferData t) @ f)), t') \<and>
         up_chunk u = take (nat C) (concat (bufferData t) @ f) \<and> up_count u = 0 \<and>
         up_request u = put_request env loc D (startByte t) (take (nat C) (concat (bufferData t) @ f)) \<and>
         events t' = events t @ [Sent (up_request u)]"
      using C by (simp add: on_data_eq call_upload_eq)
  qed
next
  show "concat (bufferData t2) \<noteq> [] \<longrightarrow>
      (\<exists>u t'. on_end env loc D t2 = (Some u, t') \<and>
         up_chunk u = concat (bufferData t2) \<and> up_count u = 0 \<and>
         up_request u = put_request env loc D (startByte t2) (concat (bufferData t2)) \<and>
         events t' = events t2 @ [Sent (up_request u)])"
    by (simp add: on_end_eq call_upload_eq)
next
  show "failing (up_response u) \<and> up_count u \<noteq> 3 \<longrightarrow>
      (\<exists>u' t'. resume_upload env loc D u t3 = (Some u', t') \<and>
         up_chunk u' = up_chunk u \<and> up_count u' = up_count u + 1 \<and>
         up_request u' = put_request env loc D (startByte t3) (up_chunk u) \<and>
         events t' = events t3 @ [Received (up_request u) (up_response u), Sent (up_request u')])"
    by (cases rule: resume_upload_cases[of u env loc D t3])
       (simp_all add: failing_def call_upload_eq receive_def)
next
  show "body (put_request env loc D b c) = Some (Buffer_body c)"
    by (simp add: put_request_def)
next
  show "\<bar>i\<bar> < 2 ^ 53 \<longrightarrow>
      number_toString big i = (if i < 0 then ''-'' else []) @ digits (nat \<bar>i\<bar>)"
    by (simp add: number_toString_def)
next
  show "decimal_value (digits n) = n" by (rule digits_decimal)
next
  show "set (digits n) \<subseteq> set ''0123456789''" by (rule digits_chars)
next
  show "0 < n \<longrightarrow> hd (digits n) \<noteq> CHR ''0''" using digits_no_leading_zero by blast
qed


lemma sample_events_overlap:
  "map_option events
     (stream_events (sample_env []) True (Some ''u'') 8 4 [[1, 2, 3, 4, 5, 6, 7, 8]] initial) =
   Some [Sent (put_request (sample_env []) (Some ''u'') 8 0 [1, 2, 3, 4]),
         Sent (put_request (sample_env []) (Some ''u'') 8 0 [1, 2, 3, 4, 5, 6, 7, 8]),
         Received (put_request (sample_env []) (Some ''u'') 8 0 [1, 2, 3, 4]) (reply 308 []),
         Received (put_request (sample_env []) (Some ''u'') 8 0 [1, 2, 3, 4, 5, 6, 7, 8]) (reply 308 [])]"
  by code_simp

lemma sample_numbers:
  "number_toString big 0 = ''0''" "number_toString big 7 = ''7''" "number_toString big 8 = ''8''"
  by (simp_all add: number_toString_def digits.simps)

theorem C9_chunk_request_shape_witness:
  "(\<exists>s'. stream_events (sample_env []) True (Some ''u'') 8 4 [[1, 2, 3, 4, 5, 6, 7, 8]] initial = Some s' \<and>
      1 < length (events s') \<and>
      events s' ! 1 = Sent \<lparr>http_method = ''PUT'', url = Some ''u'',
                             headers = [(''Content-Range'', ''bytes 0-7/8'')],
                             body = Some (Buffer_body [1, 2, 3, 4, 5, 6, 7, 8])\<rparr>) \<and>
   (0 :: int) \<le> 4 \<and> 4 \<le> int (length (concat (bufferData (initial :: string state)) @ [1, 2, 3, 4, 5, 6 :: byte])) \<and>
   (\<exists>u t'. on_data (sample_env []) (Some ''u'') 8 4 [1, 2, 3, 4, 5, 6] (initial :: string state)
              = (Some (u, [5, 6]), t') \<and> up_chunk u = [1, 2, 3, 4]) \<and>
   concat (bufferData ((initial :: string state)\<lparr>bufferData := [[5], [6]]\<rparr>)) \<noteq> [] \<and>
   (\<exists>u t'. on_end (sample_env []) (Some ''u'') 8 ((initial :: string state)\<lparr>bufferData := [[5], [6]]\<rparr>)
              = (Some u, t') \<and> up_chunk u = [5, 6]) \<and>
   failing (reply 500 ''x'') \<and>
   (\<exists>u' t'. resume_upload (sample_env []) (Some ''u'') 8
               \<lparr>up_chunk = [5, 6], up_count = 0,
                up_request = put_request (sample_env []) (Some ''u'') 8 0 [5, 6],
                up_response = reply 500 ''x''\<rparr> (initial :: string state) = (Some u', t') \<and>
             up_chunk u' = [5, 6] \<and> up_count u' = 1) \<and>
   \<bar>7 :: int\<bar> < 2 ^ 53 \<and> number_toString (\<lambda>i. ''1e+21'') 7 = digits 7 \<and>
   (0 :: nat) < 7 \<and> hd (digits 7) \<noteq> CHR ''0''"
proof -
  let ?env = "sample_env []"
  let ?u = "\<lparr>up_chunk = [5, 6], up_count = 0,
                up_request = put_request ?env (Some ''u'') 8 0 [5, 6],
                up_response = reply 500 ''x''\<rparr>"
  let ?r0 = "put_request ?env (Some ''u'') 8 0 [1, 2, 3, 4]"
  let ?r1 = "put_request ?env (Some ''u'') 8 0 [1, 2, 3, 4, 5, 6, 7, 8]"
  note c9 = C9_chunk_request_shape[of ?env True "Some ''u''" 8 4 "[[1, 2, 3, 4, 5, 6, 7, 8]]"
      "initial :: string state" "initial :: string state" "[1, 2, 3, 4, 5, 6]"
      "(initial :: string state)\<lparr>bufferData := [[5], [6]]\<rparr>" ?u "initial :: string state"
      0 "[]" 7 "\<lambda>i. ''1e+21''" 7]
  note data = c9[THEN conjunct2, THEN conjunct1]
    and fin = c9[THEN conjunct2, THEN conjunct2, THEN conjunct1]
    and retry = c9[THEN conjunct2, THEN conjunct2, THEN conjunct2, THEN conjunct1]
    and num = c9[THEN conjunct2, THEN conjunct2, THEN conjunct2, THEN conjunct2, THEN conjunct2,
        THEN conjunct1]
    and lead = c9[THEN conjunct2, THEN conjunct2, THEN conjunct2, THEN conjunct2, THEN conjunct2,
        THEN conjunct2, THEN conjunct2, THEN conjunct2]
  from c9[THEN conjunct1] obtain s' lg where s':
    "stream_events ?env True (Some ''u'') 8 4 [[1, 2, 3, 4, 5, 6, 7, 8]] initial = Some s'"
    "events s' = events (initial :: string state) @ lg"
    "\<forall>i<length lg. \<forall>req. lg ! i = Sent req \<longrightarrow>
           req = \<lparr>http_method = ''PUT'', url = Some ''u'',
                  headers = [(''Content-Range'',
                     ''bytes '' @ number_toString (big_toString ?env)
                        (startByte (initial :: string state) + confirmed (take i lg)) @ ''-'' @
                     number_toString (big_toString ?env)
                       (startByte (initial :: string state) + confirmed (take i lg)
                          + int (length (chunk_of req)) - 1) @ ''/'' @
                     number_toString (big_toString ?env) 8)],
                  body = Some (Buffer_body (chunk_of req))\<rparr>"
    by blast
  have lg: "lg = events s'" using s'(2) by (simp add: initial_def)
  have ev: "lg = [Sent ?r0, Sent ?r1, Received ?r0 (reply 308 []), Received ?r1 (reply 308 [])]"
    using sample_events_overlap s'(1) unfolding lg by simp
  have i: "1 < length lg" "lg ! 1 = Sent ?r1" "take 1 lg = [Sent ?r0]" unfolding ev by simp_all
  from s'(3) i(1,2) have "?r1 = \<lparr>http_method = ''PUT'', url = Some ''u'',
                  headers = [(''Content-Range'',
                     ''bytes '' @ number_toString (big_toString ?env)
                        (startByte (initial :: string state) + confirmed (take 1 lg)) @ ''-'' @
                     number_toString (big_toString ?env)
                       (startByte (initial :: string state) + confirmed (take 1 lg)
                          + int (length (chunk_of ?r1)) - 1) @ ''/'' @
                     number_toString (big_toString ?env) 8)],
                  body = Some (Buffer_body (chunk_of ?r1))\<rparr>"
    by blast
  then have r1: "?r1 = \<lparr>http_method = ''PUT'', url = Some ''u'',
                             headers = [(''Content-Range'', ''bytes 0-7/8'')],
                             body = Some (Buffer_body [1, 2, 3, 4, 5, 6, 7, 8])\<rparr>"
    unfolding i(3) by (simp add: initial_def sample_numbers)
  have first: "\<exists>s'. stream_events ?env True (Some ''u'') 8 4 [[1, 2, 3, 4, 5, 6, 7, 8]] initial = Some s' \<and>
      1 < length (events s') \<and>
      events s' ! 1 = Sent \<lparr>http_method = ''PUT'', url = Some ''u'',
                             headers = [(''Content-Range'', ''bytes 0-7/8'')],
                             body = Some (Buffer_body [1, 2, 3, 4, 5, 6, 7, 8])\<rparr>"
    using s'(1) i(1,2) r1 unfolding lg by auto
  have h1: "(0 :: int) \<le> 4 \<and> 4 \<le> int (length (concat (bufferData (initial :: string state)) @ [1, 2, 3, 4, 5, 6 :: byte]))"
    by (simp add: initial_def)
  from data[rule_format, OF h1] have d: "\<exists>u t'. on_data ?env (Some ''u'') 8 4 [1, 2, 3, 4, 5, 6] (initial :: string state)
              = (Some (u, [5, 6]), t') \<and> up_chunk u = [1, 2, 3, 4]"
    by (auto simp: initial_def)
  have h2: "concat (bufferData ((initial :: string state)\<lparr>bufferData := [[5], [6]]\<rparr>)) \<noteq> []" by simp
  from fin[rule_format, OF h2] have e: "\<exists>u t'. on_end ?env (Some ''u'') 8 ((initial :: string state)\<lparr>bufferData := [[5], [6]]\<rparr>)
              = (Some u, t') \<and> up_chunk u = [5, 6]"
    by auto
  have h3: "failing (reply 500 ''x'')" by (simp add: failing_def reply_def)
  then have h3': "failing (up_response ?u) \<and> up_count ?u \<noteq> 3" by simp
  from retry[rule_format, OF h3'] have r: "\<exists>u' t'. resume_upload ?env (Some ''u'') 8 ?u (initial :: string state) = (Some u', t') \<and>
             up_chunk u' = [5, 6] \<and> up_count u' = 1"
    by auto
  have h4: "\<bar>7 :: int\<bar> < 2 ^ 53" by simp
  from num[rule_format, OF h4] have n: "number_toString (\<lambda>i. ''1e+21'') 7 = digits 7" by simp
  from lead have z: "hd (digits 7) \<noteq> CHR ''0''" by simp
  from first h1 d h2 e h3 r h4 n z show ?thesis by simp
qed

subsection \<open>The accepted chunks are the source, in order\<close>

lemma accepted_append [simp]: "accepted (a @ b) = accepted a @ accepted b"
  by (simp add: accepted_def)

lemma accepted_Nil [simp]: "accepted [] = []"
  by (simp add: accepted_def)

lemma accepted_single [simp]:
  "accepted [(req, r)] = (if failing r then [] else [chunk_of req])"
  by (simp add: accepted_def)

lemma accepted_failing: "\<forall>x\<in>set fl. failing (snd x) \<Longrightarrow> accepted fl = []"
  by (induction fl) (auto simp: accepted_def)



subsection \<open>The sizes of the chunks\<close>

lemma round_trace:
  assumes "round env loc D c j t1 s2"
  obtains fl r where
    "trace s2 = trace t1 @ fl @ [(put_request env loc D (startByte t1) c, r)]"
    "\<forall>x\<in>set fl. fst x = put_request env loc D (startByte t1) c \<and> failing (snd x)"
    "status r = 308 \<or> paused s2 = paused t1"
  using assms
proof (cases rule: round_cases)
  case (complete fl r)
  then show ?thesis by (intro that[of fl r]) simp_all
next
  case (continue fl r)
  then show ?thesis by (intro that[of fl r]) simp_all
next
  case (failed fl r)
  then show ?thesis by (intro that[of fl r]) simp_all
qed

lemma accepted_subset:
  "b \<in> set (accepted ext) \<Longrightarrow> \<exists>x\<in>set ext. b = chunk_of (fst x)"
  by (auto simp: accepted_def)

lemma length_concat_equal_chunks:
  "\<forall>b\<in>set bs. int (length b) = C \<Longrightarrow> int (length (concat bs)) = C * int (length bs)"
  by (induction bs) (simp_all add: algebra_simps)

lemma last_chunk_length:
  assumes C: "0 < C" and full: "\<forall>b\<in>set (butlast bs). int (length b) = C"
    and ne: "bs \<noteq> []" and l: "0 < length (last bs)" "int (length (last bs)) \<le> C"
  shows "int (length (last bs)) =
           (if int (length (concat bs)) mod C = 0 then C else int (length (concat bs)) mod C)"
proof -
  have "bs = butlast bs @ [last bs]" using ne by simp
  then have "concat bs = concat (butlast bs) @ last bs"
    by (metis concat_append concat.simps append_Nil2)
  then have len: "int (length (concat bs)) = C * int (length (butlast bs)) + int (length (last bs))"
    using length_concat_equal_chunks[OF full] by simp
  show ?thesis
  proof (cases "int (length (last bs)) = C")
    case True
    then show ?thesis using len by simp
  next
    case False
    then have "0 < int (length (last bs))" "int (length (last bs)) < C" using l by simp_all
    then have "int (length (concat bs)) mod C = int (length (last bs))"
      using len by simp
    then show ?thesis using \<open>0 < int (length (last bs))\<close> by simp
  qed
qed

text \<open>
  When \<open>end\<close> comes after the \<open>data\<close> handler has finished: the sizes of the chunks, from a
  flowing stream with an empty buffer.
\<close>

lemma sequential_sizes:
  assumes "0 < C" and "\<not> paused s" and "bufferData s = []"
  shows "\<exists>s'. stream_events env False loc D C frags s = Some s' \<and>
     (\<exists>ext. trace s' = trace s @ ext \<and>
        (\<forall>x\<in>set ext. chunk_of (fst x) \<noteq> []) \<and>
        (\<forall>x\<in>set ext. int (length (chunk_of (fst x))) = C \<or> fst x = fst (last ext)) \<and>
        ((\<forall>f\<in>set frags. int (length f) \<le> C) \<longrightarrow>
           concat (accepted ext) = concat frags \<longrightarrow> concat frags \<noteq> [] \<longrightarrow>
           int (length (last (accepted ext))) =
             (if int (length (concat frags)) mod C = 0 then C
              else int (length (concat frags)) mod C)))"
proof -
  define H where "H \<longleftrightarrow> (\<forall>f\<in>set frags. int (length f) \<le> C)"
  define Q where "Q = (\<lambda>t::'a state. \<exists>ext. trace t = trace s @ ext \<and>
        (\<forall>x\<in>set ext. chunk_of (fst x) \<noteq> []) \<and>
        (\<forall>x\<in>set ext. int (length (chunk_of (fst x))) = C \<or> fst x = fst (last ext)) \<and>
        (\<forall>b\<in>set (butlast (accepted ext)). int (length b) = C) \<and>
        (accepted ext \<noteq> [] \<longrightarrow> 0 < length (last (accepted ext)) \<and>
           (H \<longrightarrow> int (length (last (accepted ext))) \<le> C)))"
  define I where "I = (\<lambda>(fs::buffer list) (t::'a state). set fs \<subseteq> set frags \<and>
        (\<exists>ext. trace t = trace s @ ext \<and>
           (\<forall>x\<in>set ext. int (length (chunk_of (fst x))) = C) \<and>
           (\<not> paused t \<longrightarrow> H \<longrightarrow> int (length (concat (bufferData t))) < C)))"
  have full_Q: "Q t" if tr: "trace t = trace s @ ext"
    and full: "\<forall>x\<in>set ext. int (length (chunk_of (fst x))) = C" for t ext
  proof -
    have acc: "int (length b) = C" if "b \<in> set (accepted ext)" for b
      using accepted_subset[OF that] full by auto
    have "\<forall>x\<in>set ext. chunk_of (fst x) \<noteq> []" using full assms(1) by auto
    moreover have "\<forall>b\<in>set (butlast (accepted ext)). int (length b) = C"
      using acc by (auto dest: in_set_butlastD)
    moreover have "accepted ext \<noteq> [] \<longrightarrow> 0 < length (last (accepted ext)) \<and>
           (H \<longrightarrow> int (length (last (accepted ext))) \<le> C)"
    proof (intro impI)
      assume "accepted ext \<noteq> []"
      then have "int (length (last (accepted ext))) = C" by (intro acc last_in_set)
      then show "0 < length (last (accepted ext)) \<and>
           (H \<longrightarrow> int (length (last (accepted ext))) \<le> C)"
        using assms(1) by auto
    qed
    ultimately show ?thesis unfolding Q_def using tr full by blast
  qed
  have "\<exists>s'. stream_events env False loc D C frags s = Some s' \<and> Q s'"
  proof (rule stream_events_invariant[where I = I])
    show "I frags s" unfolding I_def
      by (intro conjI exI[of _ "[]"]) (use assms in simp_all)
  next
    fix fs t assume "I fs t" "paused t"
    then show "Q t" unfolding I_def using full_Q by blast
  next
    fix f fs t assume inv: "I (f # fs) t" and np: "\<not> paused t"
    then obtain ext where ext: "trace t = trace s @ ext"
      "\<forall>x\<in>set ext. int (length (chunk_of (fst x))) = C"
      "H \<longrightarrow> int (length (concat (bufferData t))) < C"
      and sub: "f \<in> set frags" "set fs \<subseteq> set frags"
      unfolding I_def by auto
    show "\<exists>s1. data_event env loc D C f t = Some s1 \<and> I fs s1"
    proof (cases rule: data_event_cases[of t f C env loc D])
      case buffered
      have "I fs (t\<lparr>bufferData := bufferData t @ [f]\<rparr>)"
        unfolding I_def
        by (intro conjI exI[of _ ext]) (use ext(1,2) sub(2) buffered(1) in simp_all)
      then show ?thesis using buffered(2) by simp
    next
      case (sent j s2)
      let ?temp = "concat (bufferData t) @ f"
      let ?c = "buffer_slice ?temp 0 (Some C)"
      let ?left = "buffer_slice ?temp C None"
      have lc: "int (length ?c) = C"
        using length_slice_chunk[of C ?temp] sent(1) assms(1) by simp
      have ll: "int (length ?left) = int (length ?temp) - C"
        using length_slice_rest[of C ?temp] sent(1) assms(1) by simp
      from sent(2) obtain fl r where flr:
        "trace s2 = trace (t\<lparr>bufferData := bufferData t @ [f], paused := True\<rparr>) @ fl @
           [(put_request env loc D (startByte (t\<lparr>bufferData := bufferData t @ [f], paused := True\<rparr>)) ?c, r)]"
        "\<forall>x\<in>set fl. fst x = put_request env loc D
            (startByte (t\<lparr>bufferData := bufferData t @ [f], paused := True\<rparr>)) ?c \<and> failing (snd x)"
        by (rule round_trace)
      let ?ext' = "ext @ fl @ [(put_request env loc D (startByte t) ?c, r)]"
      have tr: "trace s2 = trace s @ ?ext'" using flr(1) ext(1) by simp
      have full: "\<forall>x\<in>set ?ext'. int (length (chunk_of (fst x))) = C"
        using ext(2) flr(2) lc by auto
      have left: "H \<longrightarrow> int (length (concat [?left])) < C"
      proof
        assume H
        then have "int (length f) \<le> C" "int (length (concat (bufferData t))) < C"
          using sub(1) ext(3) by (simp_all add: H_def)
        then show "int (length (concat [?left])) < C" using ll by simp
      qed
      have "I fs (s2\<lparr>bufferData := [?left]\<rparr>)"
        unfolding I_def
        by (intro conjI exI[of _ ?ext']) (use tr full left sub(2) in simp_all)
      then show ?thesis using sent(3) by simp
    qed
  next
    fix t assume inv: "I [] t" and np: "\<not> paused t"
    then obtain ext where ext: "trace t = trace s @ ext"
      "\<forall>x\<in>set ext. int (length (chunk_of (fst x))) = C"
      "H \<longrightarrow> int (length (concat (bufferData t))) < C"
      unfolding I_def by auto
    show "\<exists>s1. end_event env loc D t = Some s1 \<and> Q s1"
    proof (cases rule: end_event_cases[of t env loc D])
      case empty
      then show ?thesis using full_Q[OF ext(1,2)] by simp
    next
      case (sent j s2)
      let ?c = "concat (bufferData t)"
      let ?req = "put_request env loc D (startByte t) ?c"
      from sent(2) obtain fl r where flr:
        "trace s2 = trace t @ fl @ [(?req, r)]"
        "\<forall>x\<in>set fl. fst x = ?req \<and> failing (snd x)"
        by (rule round_trace)
      let ?ext' = "ext @ fl @ [(?req, r)]"
      have tr: "trace s2 = trace s @ ?ext'" using flr(1) ext(1) by simp
      have acc_old: "int (length b) = C" if "b \<in> set (accepted ext)" for b
        using accepted_subset[OF that] ext(2) by auto
      have acc: "accepted ?ext' = accepted ext @ (if failing r then [] else [?c])"
        using flr(2) by (simp add: accepted_failing)
      have q1: "\<forall>x\<in>set ?ext'. chunk_of (fst x) \<noteq> []"
        using ext(2) flr(2) sent(1) assms(1) by auto
      have q2: "\<forall>x\<in>set ?ext'. int (length (chunk_of (fst x))) = C \<or> fst x = fst (last ?ext')"
        using ext(2) flr(2) by auto
      have q3: "\<forall>b\<in>set (butlast (accepted ?ext')). int (length b) = C"
        unfolding acc using acc_old by (auto simp: butlast_append dest: in_set_butlastD)
      have q4: "accepted ?ext' \<noteq> [] \<longrightarrow> 0 < length (last (accepted ?ext')) \<and>
           (H \<longrightarrow> int (length (last (accepted ?ext'))) \<le> C)"
      proof (cases "failing r")
        case True
        then have same: "accepted ?ext' = accepted ext" using acc by simp
        show ?thesis unfolding same
        proof (intro impI)
          assume "accepted ext \<noteq> []"
          then have "int (length (last (accepted ext))) = C" by (intro acc_old last_in_set)
          then show "0 < length (last (accepted ext)) \<and>
             (H \<longrightarrow> int (length (last (accepted ext))) \<le> C)"
            using assms(1) by auto
        qed
      next
        case False
        then have "last (accepted ?ext') = ?c" using acc by simp
        then show ?thesis using sent(1) ext(3) by auto
      qed
      have "Q s2" unfolding Q_def
        by (intro exI[of _ ?ext'] conjI) (rule tr q1 q2 q3 q4)+
      then show ?thesis using sent(3) by simp
    qed
  qed
  then obtain s' ext where s': "stream_events env False loc D C frags s = Some s'"
    "trace s' = trace s @ ext"
    "\<forall>x\<in>set ext. chunk_of (fst x) \<noteq> []"
    "\<forall>x\<in>set ext. int (length (chunk_of (fst x))) = C \<or> fst x = fst (last ext)"
    "\<forall>b\<in>set (butlast (accepted ext)). int (length b) = C"
    "accepted ext \<noteq> [] \<longrightarrow> 0 < length (last (accepted ext)) \<and>
           (H \<longrightarrow> int (length (last (accepted ext))) \<le> C)"
    unfolding Q_def by blast
  have "int (length (last (accepted ext))) =
             (if int (length (concat frags)) mod C = 0 then C
              else int (length (concat frags)) mod C)"
    if h: "\<forall>f\<in>set frags. int (length f) \<le> C" and all: "concat (accepted ext) = concat frags"
      and ne: "concat frags \<noteq> []"
  proof -
    have ne': "accepted ext \<noteq> []" using all ne by auto
    then have "0 < length (last (accepted ext))" "int (length (last (accepted ext))) \<le> C"
      using s'(6) h by (simp_all add: H_def)
    from last_chunk_length[OF assms(1) s'(5) ne' this] show ?thesis using all by simp
  qed
  with s'(1-4) show ?thesis by blast
qed

text \<open>
  A run with no two requests in flight together is a run of the stream whose \<open>end\<close> comes
  after the \<open>data\<close> handler has finished.
\<close>

lemma stream_events_sequential:
  "\<exists>s' lg ext. stream_events env eof loc D C frags s = Some s' \<and>
     events s' = events s @ lg \<and> trace s' = trace s @ ext \<and>
     (\<not> overlapping lg \<longrightarrow> stream_events env False loc D C frags s = Some s')"
proof -
  from stream_events_log[of env eof loc D C frags s]
  obtain s' lg ext where s': "stream_events env eof loc D C frags s = Some s'"
    "events s' = events s @ lg" "trace s' = trace s @ ext"
    by blast
  have "stream_events env False loc D C frags s = Some s'" if "\<not> overlapping lg"
  proof (cases eof)
    case True
    then have "stream_events env True loc D C frags s = Some s'" using s'(1) by simp
    from stream_events_no_overlap[OF this s'(2) that] show ?thesis .
  next
    case False
    then show ?thesis using s'(1) by simp
  qed
  with s' show ?thesis by blast
qed





text \<open>With a chunk size above 0 no request carries an empty body, whatever the timing.\<close>

lemma stream_events_nonempty:
  assumes "0 < C"
  shows "\<exists>s' ext. stream_events env eof loc D C frags s = Some s' \<and> trace s' = trace s @ ext \<and>
           (\<forall>x\<in>set ext. chunk_of (fst x) \<noteq> [])"
proof -
  define P where "P = (\<lambda>t::'a state. \<exists>ext. trace t = trace s @ ext \<and>
           (\<forall>x\<in>set ext. chunk_of (fst x) \<noteq> []))"
  have init: "P s" unfolding P_def by simp
  have call: "P (snd (call_upload env loc D c k t))" if "P t" "c \<noteq> []" for c k t
  proof -
    from that(1) obtain ext where "trace t = trace s @ ext" "\<forall>x\<in>set ext. chunk_of (fst x) \<noteq> []"
      unfolding P_def by blast
    then show ?thesis unfolding P_def call_upload_eq snd_conv
      by (intro exI[of _ "ext @ [(put_request env loc D (startByte t) c, network env (length (trace t)))]"])
         (use that(2) in simp)
  qed
  have recv: "P (receive req res t)" if "P t" for req res t
    using that unfolding P_def by (simp add: receive_def)
  have step: "P (snd (resume_upload env loc D u t))"
    if Pt: "P t" and q: "up_chunk u \<noteq> []" for u t
  proof (cases rule: resume_upload_cases[of u env loc D t])
    case complete
    show ?thesis using recv[OF Pt, of "up_request u" "up_response u"]
      unfolding complete(2) snd_conv P_def by (simp add: resolve_def)
  next
    case continue
    show ?thesis using recv[OF Pt, of "up_request u" "up_response u"]
      unfolding continue(2) snd_conv P_def by simp
  next
    case failed
    show ?thesis using recv[OF Pt, of "up_request u" "up_response u"]
      unfolding failed(3) snd_conv P_def by (simp add: reject_def)
  next
    case retry
    from call[OF recv[OF Pt] q] show ?thesis unfolding retry(3) by (simp add: split_beta)
  qed
  have buf: "P (t\<lparr>bufferData := b\<rparr>)" if "P t" for t b
    using that unfolding P_def by simp
  have pause: "P (t\<lparr>paused := True\<rparr>)" if "P t" for t
    using that unfolding P_def by simp
  have qd: "buffer_slice temp 0 (Some C) \<noteq> []" if "C \<le> int (length temp)" for temp :: buffer
    using length_slice_chunk[of C temp] that assms by auto
  have "\<exists>s'. stream_events env eof loc D C frags s = Some s' \<and> P s'"
    by (rule stream_events_run_chunks[where Q = "\<lambda>c. c \<noteq> []"])
       (use init call step buf pause qd in blast)+
  then show ?thesis unfolding P_def by blast
qed

text \<open>
  Claim C3, as amended. With a chunk size \<open>C > 0\<close>, started on a flowing stream with an
  empty buffer, the stream phase returns, with any timing, and no request carries an empty
  body. If no request was sent while another was waiting for its response: every request
  carries exactly \<open>C\<close> bytes unless it is the last request or an earlier attempt of it (it
  equals the last request); and when no fragment of the source is longer than \<open>C\<close> and the
  server accepted the whole source, of length \<open>D > 0\<close>, the last accepted chunk has
  \<open>D mod C\<close> bytes, or \<open>C\<close> when that is 0. The \<open>data\<close> handler cuts one chunk per
  fragment, so a fragment longer than \<open>C\<close> leaves more than \<open>C\<close> bytes for the last chunk.
\<close>

theorem C3_chunk_sizes:
  assumes "0 < C" and "\<not> paused s" and "bufferData s = []"
  shows "\<exists>s'. stream_events env eof loc D C frags s = Some s' \<and>
     (\<exists>lg ext. events s' = events s @ lg \<and> trace s' = trace s @ ext \<and>
        (\<forall>x\<in>set ext. chunk_of (fst x) \<noteq> []) \<and>
        (\<not> overlapping lg \<longrightarrow>
           (\<forall>x\<in>set ext. int (length (chunk_of (fst x))) = C \<or> fst x = fst (last ext)) \<and>
           ((\<forall>f\<in>set frags. int (length f) \<le> C) \<longrightarrow>
              concat (accepted ext) = concat frags \<longrightarrow> concat frags \<noteq> [] \<longrightarrow>
              int (length (last (accepted ext))) =
                (if int (length (concat frags)) mod C = 0 then C
                 else int (length (concat frags)) mod C))))"
proof -
  obtain s' lg ext where s': "stream_events env eof loc D C frags s = Some s'"
    "events s' = events s @ lg" "trace s' = trace s @ ext"
    "\<not> overlapping lg \<longrightarrow> stream_events env False loc D C frags s = Some s'"
    using stream_events_sequential[of env eof loc D C frags s] by blast
  have ne: "\<forall>x\<in>set ext. chunk_of (fst x) \<noteq> []"
  proof -
    from stream_events_nonempty[OF assms(1), of env eof loc D frags s] s'(1)
    obtain ext' where e: "trace s' = trace s @ ext'" "\<forall>x\<in>set ext'. chunk_of (fst x) \<noteq> []"
      by auto
    have "ext' = ext" using e(1) s'(3) by simp
    with e(2) show ?thesis by simp
  qed
  have "(\<forall>x\<in>set ext. int (length (chunk_of (fst x))) = C \<or> fst x = fst (last ext)) \<and>
           ((\<forall>f\<in>set frags. int (length f) \<le> C) \<longrightarrow>
              concat (accepted ext) = concat frags \<longrightarrow> concat frags \<noteq> [] \<longrightarrow>
              int (length (last (accepted ext))) =
                (if int (length (concat frags)) mod C = 0 then C
                 else int (length (concat frags)) mod C))"
    if "\<not> overlapping lg"
  proof -
    from sequential_sizes[OF assms, of env loc D frags] s'(4) that
    obtain ext' where e: "trace s' = trace s @ ext'"
      "\<forall>x\<in>set ext'. int (length (chunk_of (fst x))) = C \<or> fst x = fst (last ext')"
      "(\<forall>f\<in>set frags. int (length f) \<le> C) \<longrightarrow>
              concat (accepted ext') = concat frags \<longrightarrow> concat frags \<noteq> [] \<longrightarrow>
              int (length (last (accepted ext'))) =
                (if int (length (concat frags)) mod C = 0 then C
                 else int (length (concat frags)) mod C)"
      by auto
    have "ext' = ext" using e(1) s'(3) by simp
    with e(2,3) show ?thesis by simp
  qed
  with s'(1-3) ne show ?thesis by blast
qed

lemma sample_run_all_308:
  "map_option (\<lambda>t. (accepted (trace t), overlapping (events t)))
     (stream_events (sample_env []) True (Some ''u'') 6 4 [[1, 2, 3, 4], [5, 6]] initial) =
   Some ([[1, 2, 3, 4], [5, 6]], False)"
  by code_simp

theorem C3_chunk_sizes_witness:
  "(0::int) < 4 \<and> \<not> paused (initial :: string state) \<and> bufferData (initial :: string state) = [] \<and>
   (\<exists>s'. stream_events (sample_env []) True (Some ''u'') 6 4 [[1, 2, 3, 4], [5, 6]] initial = Some s' \<and>
          \<not> overlapping (events s') \<and>
          (\<forall>f\<in>set [[1, 2, 3, 4], [5, 6 :: byte]]. int (length f) \<le> 4) \<and>
          accepted (trace s') = [[1, 2, 3, 4], [5, 6]] \<and>
          int (length (last (accepted (trace s')))) = 6 mod 4)"
proof -
  have h: "(0::int) < 4" "\<not> paused (initial :: string state)"
    "bufferData (initial :: string state) = []"
    by (simp_all add: initial_def)
  from C3_chunk_sizes[OF h, of "sample_env []" True "Some ''u''" 6 "[[1, 2, 3, 4], [5, 6]]"]
  obtain s' lg ext where s':
    "stream_events (sample_env []) True (Some ''u'') 6 4 [[1, 2, 3, 4], [5, 6]] initial = Some s'"
    "events s' = events (initial :: string state) @ lg"
    "trace s' = trace (initial :: string state) @ ext"
    "\<not> overlapping lg \<longrightarrow>
     ((\<forall>f\<in>set [[1, 2, 3, 4], [5, 6 :: byte]]. int (length f) \<le> 4) \<longrightarrow>
       concat (accepted ext) = concat [[1, 2, 3, 4], [5, 6]] \<longrightarrow>
       concat [[1, 2, 3, 4], [5, 6 :: byte]] \<noteq> [] \<longrightarrow>
       int (length (last (accepted ext))) =
         (if int (length (concat [[1, 2, 3, 4], [5, 6 :: byte]])) mod 4 = 0 then 4
          else int (length (concat [[1, 2, 3, 4], [5, 6 :: byte]])) mod 4))"
    by blast
  have st: "accepted (trace s') = [[1, 2, 3, 4], [5, 6]]" "overlapping (events s') = False"
    using sample_run_all_308 s'(1) by simp_all
  have lg: "lg = events s'" using s'(2) by (simp add: initial_def)
  have ext: "ext = trace s'" using s'(3) by (simp add: initial_def)
  have "int (length (last (accepted ext))) = 6 mod 4"
    using s'(4) st unfolding lg ext by simp
  then show ?thesis using h s'(1) st unfolding ext by simp
qed

text \<open>
  Claim C3 as stated fails for a fragment longer than the chunk size. A file of one fragment
  of 5 bytes with a chunk size of 2: when \<open>end\<close> comes after the \<open>data\<close> handler, the chunks
  have 2 and 3 bytes; when the end of the file is buffered, the \<open>end\<close> handler sends the 5
  bytes of the buffer while the first chunk is in flight. The claim has a last chunk of
  \<open>5 mod 2 = 1\<close> byte.
\<close>

theorem C3_last_chunk_counterexample:
  "map_option (\<lambda>t. (map (length \<circ> chunk_of \<circ> fst) (tl (trace t)), overlapping (events t)))
     (resumableUpload ((small_file_env [1, 2, 3, 4, 5] [reply 200 ''{}''])\<lparr>eof_buffered := False\<rparr>)
        (sample_object\<lparr>dataSize := Some 5, chunkSize := Some 2\<rparr>)) = Some ([2, 3], False) \<and>
   map_option (\<lambda>t. (map (length \<circ> chunk_of \<circ> fst) (tl (trace t)), overlapping (events t)))
     (resumableUpload (small_file_env [1, 2, 3, 4, 5] [reply 200 ''{}''])
        (sample_object\<lparr>dataSize := Some 5, chunkSize := Some 2\<rparr>)) = Some ([2, 5], True) \<and>
   (3 :: int) \<noteq> 5 mod 2 \<and> (3 :: int) \<noteq> 2 \<and> (5 :: int) \<noteq> 5 mod 2 \<and> (5 :: int) \<noteq> 2"
  by code_simp

subsection \<open>The end of the source during an upload\<close>

text \<open>
  When the last fragment completes a chunk and the end of the source is buffered behind it,
  the \<open>end\<close> handler runs while the \<open>data\<close> handler waits for its upload (line 125): it
  reads the buffer before line 126 has cut the chunk off and the offset before the 308 has
  moved it, and starts an upload of its own, with a counter \<open>upCount\<close> of its own (lines 81
  and 133). The four runs below are runs of \<open>resumableUpload\<close> on a file that the stream
  delivers in one fragment.

  Claim C2, at a file of 4 bytes with a chunk size of 4 and a server that answers 500 to
  every PUT: the chunk is sent eight times, four times by each handler, all with the same
  range and body, and the promise is rejected with the status and the text of a 500.
\<close>

theorem C2_both_handlers_retry:
  "map_option (\<lambda>t. (map (\<lambda>x. (map snd (headers (fst x)), chunk_of (fst x), status (snd x))) (tl (trace t)),
                     promise t))
     (resumableUpload (small_file_env [1, 2, 3, 4] (reply 200 ''{}'' # replicate 8 (reply 500 ''x'')))
        (sample_object\<lparr>dataSize := Some 4\<rparr>))
   = Some (replicate 8 ([''bytes 0-3/4''], [1, 2, 3, 4], 500), Rejected 500 (Text ''x''))"
  by code_simp

text \<open>
  Claim C5, at a file of 4 bytes with a chunk size of 4: the PUT of the \<open>data\<close> handler is
  answered 200 and the promise resolves with the parsed body; the PUT of the \<open>end\<close> handler
  is answered 500 after that, and its retry is sent after the 200 has been received.
\<close>

theorem C5_request_after_200:
  "map_option (\<lambda>t. (map (\<lambda>x. (http_method (fst x), status (snd x))) (trace t), promise t,
                     map (\<lambda>ev. case ev of Sent r \<Rightarrow> (''sent'', 0)
                                | Received r res \<Rightarrow> (''received'', status res)) (events t)))
     (resumableUpload
        (small_file_env [1, 2, 3, 4] [reply 200 ''{}'', reply 200 ''{done}'', reply 500 ''x'', reply 308 []])
        (sample_object\<lparr>dataSize := Some 4\<rparr>))
   = Some ([(''POST'', 200), (''PUT'', 200), (''PUT'', 500), (''PUT'', 308)],
           Resolved (Json ''{done}''),
           [(''sent'', 0), (''received'', 200), (''sent'', 0), (''sent'', 0),
            (''received'', 200), (''received'', 500), (''sent'', 0), (''received'', 308)])"
  by code_simp

text \<open>
  Claim C6, at a file of 8 bytes with a chunk size of 4: the PUT of the \<open>data\<close> handler,
  bytes 0 to 3, is answered 308; the PUT of the \<open>end\<close> handler, with the 8 bytes of the
  buffer as bytes 0 to 7, is answered 500; its retry reads the offset again, which the 308
  has moved to 4, and carries the same 8 bytes as bytes 4 to 11.
\<close>

theorem C6_retry_at_moved_offset:
  "map_option (\<lambda>t. map (\<lambda>x. (map snd (headers (fst x)), chunk_of (fst x), status (snd x))) (tl (trace t)))
     (resumableUpload
        (small_file_env [1, 2, 3, 4, 5, 6, 7, 8] [reply 200 ''{}'', reply 308 [], reply 500 ''x'', reply 308 []])
        sample_object)
   = Some [([''bytes 0-3/8''], [1, 2, 3, 4], 308),
           ([''bytes 0-7/8''], [1, 2, 3, 4, 5, 6, 7, 8], 500),
           ([''bytes 4-11/8''], [1, 2, 3, 4, 5, 6, 7, 8], 308)]"
  by code_simp

text \<open>
  Claim C10, at a file of 4 bytes with a chunk size of 4: the PUT of the \<open>end\<close> handler, the
  chunk sent after the source is exhausted, is answered 308, and the promise is resolved, by
  the 200 that answered the PUT of the \<open>data\<close> handler.
\<close>

theorem C10_resolved_beside_308:
  "map_option (\<lambda>t. (map (\<lambda>x. (http_method (fst x), chunk_of (fst x), status (snd x))) (trace t), promise t,
                     map (\<lambda>ev. case ev of Sent r \<Rightarrow> (''sent'', 0)
                                | Received r res \<Rightarrow> (''received'', status res)) (events t)))
     (resumableUpload
        (small_file_env [1, 2, 3, 4] [reply 200 ''{}'', reply 200 ''{done}'', reply 308 []])
        (sample_object\<lparr>dataSize := Some 4\<rparr>))
   = Some ([(''POST'', [], 200), (''PUT'', [1, 2, 3, 4], 200), (''PUT'', [1, 2, 3, 4], 308)],
           Resolved (Json ''{done}''),
           [(''sent'', 0), (''received'', 200), (''sent'', 0), (''sent'', 0),
            (''received'', 200), (''received'', 308)])"
  by code_simp


subsection \<open>Validation of the argument\<close>

text \<open>
  Claim C7, as amended. If \<open>resumableUrl\<close> is missing or empty, or \<open>dataSize\<close> is missing or
  0, or \<open>filePath\<close> and \<open>fileUrl\<close> are both given or both missing (or empty), the executor
  throws an \<open>Error\<close> with the message of the failing check, and no network request has been
  issued: the trace is empty. A negative \<open>dataSize\<close> passes the check \<open>dataSize == 0\<close>.
\<close>

theorem C7_configuration_error:
  assumes "resumableUrl object \<in> {None, Some ''''} \<or> dataSize object \<in> {None, Some 0} \<or>
           (filePath object \<in> {None, Some ''''}) = (fileUrl object \<in> {None, Some ''''})"
  shows "\<exists>s. resumableUpload env object = Some s \<and> trace s = [] \<and>
           uncaught s = Some (Error
             (if resumableUrl object \<in> {None, Some ''''} \<or> dataSize object \<in> {None, Some 0}
              then ''Please set resumableUrl and dataSize''
              else ''Please set filePath or fileUrl''))"
proof -
  have d: "or_default '''' v = '''' \<longleftrightarrow> v \<in> {None, Some ''''}" for v :: "string option"
    by (cases v) (auto simp: or_default_def)
  have z: "or_default 0 v = 0 \<longleftrightarrow> v \<in> {None, Some 0}" for v :: "int option"
    by (cases v) (auto simp: or_default_def)
  show ?thesis
  proof (cases "resumableUrl object \<in> {None, Some ''''} \<or> dataSize object \<in> {None, Some 0}")
    case True
    then have "or_default '''' (resumableUrl object) = '''' \<or> or_default 0 (dataSize object) = 0"
      unfolding d z .
    then have "resumableUpload env object =
        Some (initial\<lparr>uncaught := Some (Error ''Please set resumableUrl and dataSize'')\<rparr>)"
      by (simp add: resumableUpload_def Let_def)
    then show ?thesis using True by (simp add: initial_def)
  next
    case False
    then have ok: "\<not> (or_default '''' (resumableUrl object) = '''' \<or> or_default 0 (dataSize object) = 0)"
      unfolding d z .
    from False assms have
      "(filePath object \<in> {None, Some ''''}) = (fileUrl object \<in> {None, Some ''''})" by blast
    then have src: "(or_default '''' (filePath object) = '''') = (or_default '''' (fileUrl object) = '''')"
      unfolding d .
    have "resumableUpload env object =
        Some (initial\<lparr>uncaught := Some (Error ''Please set filePath or fileUrl'')\<rparr>)"
      using ok src by (auto simp: resumableUpload_def Let_def)
    then show ?thesis using False by (simp add: initial_def)
  qed
qed

theorem C7_configuration_error_witness:
  "\<exists>s. resumableUpload (sample_env []) (sample_object\<lparr>dataSize := None\<rparr>) = Some s \<and>
        trace s = [] \<and> uncaught s = Some (Error ''Please set resumableUrl and dataSize'')"
proof -
  have h: "resumableUrl (sample_object\<lparr>dataSize := None\<rparr>) \<in> {None, Some ''''} \<or>
           dataSize (sample_object\<lparr>dataSize := None\<rparr>) \<in> {None, Some 0} \<or>
           (filePath (sample_object\<lparr>dataSize := None\<rparr>) \<in> {None, Some ''''}) =
           (fileUrl (sample_object\<lparr>dataSize := None\<rparr>) \<in> {None, Some ''''})"
    by (simp add: sample_object_def)
  from C7_configuration_error[OF h, of "sample_env []"]
  show ?thesis by (simp add: sample_object_def)
qed

text \<open>
  Claim C7 as stated fails for a negative \<open>dataSize\<close>: with \<open>dataSize = -1\<close> the session is
  opened and the chunks are sent, and nothing is thrown.
\<close>

theorem C7_negative_dataSize_counterexample:
  "(-1 :: int) \<le> 0 \<and>
   map_option (map (http_method \<circ> fst) \<circ> trace)
     (resumableUpload (sample_env [reply 200 ''{}'']) (sample_object\<lparr>dataSize := Some (-1)\<rparr>))
     = Some [''POST'', ''PUT'', ''PUT''] \<and>
   map_option uncaught
     (resumableUpload (sample_env [reply 200 ''{}'']) (sample_object\<lparr>dataSize := Some (-1)\<rparr>))
     = Some None"
  by code_simp

subsection \<open>A refused session\<close>

text \<open>
  Claim C8, as amended. With a valid argument, when the response to the session POST is not
  2xx: the POST is the last request, made once, and no chunk request is issued; the only
  request before it is the GET that opens a URL source, and no fragment has reached the
  \<open>data\<close> handler (the buffer is empty and the offset 0). When the body of the response
  parses as JSON, the promise is rejected with the status of the response and the parsed
  body.
\<close>

theorem C8_session_refused:
  assumes "resumableUrl object = Some rurl" and "rurl \<noteq> ''''"
    and "dataSize object = Some dsize" and "dsize \<noteq> 0"
    and "(filePath object \<in> {None, Some ''''}) \<noteq> (fileUrl object \<in> {None, Some ''''})"
    and "n = (if fileUrl object \<in> {None, Some ''''} then 0 else 1)"
    and "\<not> ok (network env n)"
  shows "\<exists>s. resumableUpload env object = Some s \<and>
           trace s =
             (if fileUrl object \<in> {None, Some ''''} then []
              else [(\<lparr>http_method = ''GET'', url = fileUrl object, headers = [], body = None\<rparr>,
                     network env 0)]) @
             [(\<lparr>http_method = ''POST'', url = Some rurl,
                headers = session_headers (accessToken object),
                body = Some (Text_body (or_default ''{}'' (metadata object)))\<rparr>, network env n)] \<and>
           bufferData s = [] \<and> startByte s = 0 \<and>
           (\<forall>j. JSON_parse env (body_text (network env n)) = Some j \<longrightarrow>
                promise s = Rejected (status (network env n)) (Json j))"
proof -
  have d: "or_default '''' v = '''' \<longleftrightarrow> v \<in> {None, Some ''''}" for v :: "string option"
    by (cases v) (auto simp: or_default_def)
  have cfg: "or_default '''' (resumableUrl object) = rurl" "or_default 0 (dataSize object) = dsize"
    using assms(1,3) by (simp_all add: or_default_def)
  show ?thesis
  proof (cases "fileUrl object \<in> {None, Some ''''}")
    case True
    then have fp: "filePath object \<notin> {None, Some ''''}" using assms(5) by blast
    have src: "or_default '''' (fileUrl object) = ''''" "or_default '''' (filePath object) \<noteq> ''''"
      using True fp unfolding d by simp_all
    have n: "n = 0" using True assms(6) by simp
    show ?thesis
      using assms(2,4,7) True cfg src unfolding n
      by (cases "JSON_parse env (body_text (network env 0))")
         (simp_all add: resumableUpload_def Let_def await_fetch_def fetch_def receive_def initial_def reject_def)
  next
    case False
    then have fp: "filePath object \<in> {None, Some ''''}" using assms(5) by blast
    have src: "or_default '''' (fileUrl object) \<noteq> ''''" "or_default '''' (filePath object) = ''''"
      using False fp unfolding d by simp_all
    obtain u where u: "fileUrl object = Some u" using False by (cases "fileUrl object") auto
    then have u': "or_default '''' (fileUrl object) = u" by (simp add: or_default_def)
    have n: "n = 1" using False assms(6) by simp
    show ?thesis
      using assms(2,4,7) False cfg src u u' unfolding n
      by (cases "JSON_parse env (body_text (network env 1))")
         (simp_all add: resumableUpload_def Let_def await_fetch_def fetch_def receive_def initial_def reject_def)
  qed
qed

theorem C8_session_refused_witness:
  "\<not> ok (network (sample_env [reply 403 ''{denied}'']) 0) \<and>
   (\<exists>s. resumableUpload (sample_env [reply 403 ''{denied}'']) sample_object = Some s \<and>
        length (trace s) = 1 \<and> promise s = Rejected 403 (Json ''{denied}''))"
proof -
  let ?env = "sample_env [reply 403 ''{denied}'']"
  have h: "resumableUrl sample_object = Some ''r''" "''r'' \<noteq> ''''"
    "dataSize sample_object = Some 8" "(8 :: int) \<noteq> 0"
    "(filePath sample_object \<in> {None, Some ''''}) \<noteq> (fileUrl sample_object \<in> {None, Some ''''})"
    "(0 :: nat) = (if fileUrl sample_object \<in> {None, Some ''''} then 0 else 1)"
    "\<not> ok (network ?env 0)"
    by (simp_all add: sample_object_def sample_env_def replay_def reply_def ok_def)
  have p: "JSON_parse ?env (body_text (network ?env 0)) = Some ''{denied}''"
    by (simp add: sample_env_def replay_def reply_def parse_braces_def)
  from C8_session_refused[OF h] p h(7)
  show ?thesis
    by (auto simp: sample_object_def sample_env_def replay_def reply_def)
qed

text \<open>
  Claim C8 as stated fails twice over on a URL source whose session POST is answered 500 with
  a body that is not JSON: the source has been requested before the POST, and \<open>res2.json()\<close>
  throws inside the executor, so the promise is not rejected but left pending.
\<close>

theorem C8_session_refused_counterexample:
  "\<not> ok (reply 500 ''oops'') \<and>
   map_option (map (http_method \<circ> fst) \<circ> trace)
     (resumableUpload (sample_env [reply 200 [], reply 500 ''oops''])
        (sample_object\<lparr>filePath := None, fileUrl := Some ''http://source''\<rparr>))
     = Some [''GET'', ''POST''] \<and>
   map_option promise
     (resumableUpload (sample_env [reply 200 [], reply 500 ''oops''])
        (sample_object\<lparr>filePath := None, fileUrl := Some ''http://source''\<rparr>))
     = Some Pending \<and>
   map_option uncaught
     (resumableUpload (sample_env [reply 200 [], reply 500 ''oops''])
        (sample_object\<lparr>filePath := None, fileUrl := Some ''http://source''\<rparr>))
     = Some (Some SyntaxError)"
  by code_simp

subsection \<open>From the exported function to the stream phase\<close>

text \<open>
  With a valid argument and a 2xx response to the session POST, \<open>resumableUpload\<close> is the
  stream phase, started in the initial state (offset 0, empty buffer, flowing, promise
  pending) with the requests made so far in the trace. The properties of \<open>stream_events\<close>
  above are stated for any such state.
\<close>

lemma resumableUpload_stream_phase:
  assumes "resumableUrl object = Some rurl" and "rurl \<noteq> ''''"
    and "dataSize object = Some dsize" and "dsize \<noteq> 0"
    and "(filePath object \<in> {None, Some ''''}) \<noteq> (fileUrl object \<in> {None, Some ''''})"
    and "n = (if fileUrl object \<in> {None, Some ''''} then 0 else 1)"
    and "ok (network env n)"
  shows "resumableUpload env object =
           stream_events env (eof_buffered env) (header_location (network env n)) dsize
             (or_default 16777216 (chunkSize object))
             (if fileUrl object \<in> {None, Some ''''}
              then createReadStream env (or_default '''' (filePath object))
              else body_fragments (network env 0))
             (initial\<lparr>trace :=
                (if fileUrl object \<in> {None, Some ''''} then []
                 else [(\<lparr>http_method = ''GET'', url = fileUrl object, headers = [], body = None\<rparr>,
                        network env 0)]) @
                [(\<lparr>http_method = ''POST'', url = Some rurl,
                   headers = session_headers (accessToken object),
                   body = Some (Text_body (or_default ''{}'' (metadata object)))\<rparr>,
                  network env n)],
              events := exchanges
               ((if fileUrl object \<in> {None, Some ''''} then []
                 else [(\<lparr>http_method = ''GET'', url = fileUrl object, headers = [], body = None\<rparr>,
                        network env 0)]) @
                [(\<lparr>http_method = ''POST'', url = Some rurl,
                   headers = session_headers (accessToken object),
                   body = Some (Text_body (or_default ''{}'' (metadata object)))\<rparr>,
                  network env n)])\<rparr>)"
proof -
  have d: "or_default '''' v = '''' \<longleftrightarrow> v \<in> {None, Some ''''}" for v :: "string option"
    by (cases v) (auto simp: or_default_def)
  have cfg: "or_default '''' (resumableUrl object) = rurl" "or_default 0 (dataSize object) = dsize"
    using assms(1,3) by (simp_all add: or_default_def)
  show ?thesis
  proof (cases "fileUrl object \<in> {None, Some ''''}")
    case True
    then have fp: "filePath object \<notin> {None, Some ''''}" using assms(5) by blast
    have src: "or_default '''' (fileUrl object) = ''''" "or_default '''' (filePath object) \<noteq> ''''"
      using True fp unfolding d by simp_all
    have n: "n = 0" using True assms(6) by simp
    show ?thesis
      using assms(2,4,7) True cfg src unfolding n
      by (simp add: resumableUpload_def Let_def await_fetch_def fetch_def receive_def initial_def)
  next
    case False
    then have fp: "filePath object \<in> {None, Some ''''}" using assms(5) by blast
    have src: "or_default '''' (fileUrl object) \<noteq> ''''" "or_default '''' (filePath object) = ''''"
      using False fp unfolding d by simp_all
    obtain u where u: "fileUrl object = Some u" using False by (cases "fileUrl object") auto
    then have u': "or_default '''' (fileUrl object) = u" by (simp add: or_default_def)
    have n: "n = 1" using False assms(6) by simp
    show ?thesis
      using assms(2,4,7) False cfg src u u' unfolding n
      by (simp add: resumableUpload_def Let_def await_fetch_def fetch_def receive_def initial_def)
  qed
qed

end
